theory Spec2Isabelle
  imports Main
begin

section \<open>Admonition kinds and their labels\<close>

text \<open>
  The enumeration \<open>BlockQuoteType\<close> of \<open>renderer.go\<close> (\<open>Info\<close> = 0 up to \<open>None\<close> = 4).
  The last constructor is written \<open>NoneBQ\<close>, since \<open>None\<close> is the empty option in HOL.
  \<open>BlockQuoteType_String\<close> is the method \<open>String\<close>: the label table indexed by the value.
\<close>

datatype BlockQuoteType = Info | Note | Warn | Tip | NoneBQ

fun BlockQuoteType_String :: "BlockQuoteType \<Rightarrow> string" where
  "BlockQuoteType_String Info = ''info''"
| "BlockQuoteType_String Note = ''note''"
| "BlockQuoteType_String Warn = ''warning''"
| "BlockQuoteType_String Tip = ''tip''"
| "BlockQuoteType_String NoneBQ = ''none''"

section \<open>Abrupt termination\<close>

text \<open>
  A Go panic ends the call; every function that can panic returns \<open>panic + 'a\<close>, with the
  panic on the left.
\<close>

datatype panic =
    NilDereference    \<comment> \<open>a method called through a nil pointer or nil interface\<close>
  | TypeAssertion     \<comment> \<open>\<open>node.(*T)\<close> on a node whose dynamic type is not \<open>*T\<close>\<close>
  | SliceBounds       \<comment> \<open>\<open>buffer[a:b]\<close> outside the buffer\<close>

section \<open>Patterns and classifiers\<close>

text \<open>
  The eight patterns of the source are all of one shape: the flag \<open>(?i)\<close>, an optional
  anchor \<open>^\<close>, then a literal word or an alternation of literal words. \<open>Regexp a ws\<close>
  stands for such a pattern: \<open>a\<close> says whether it is anchored at the start of the text,
  \<open>ws\<close> are the alternatives. No letter of these words has a case variant outside ASCII,
  so folding the letters A to Z is all that \<open>(?i)\<close> does here.
\<close>

definition to_lower :: "char \<Rightarrow> char" where
  "to_lower c =
     (if 65 \<le> (of_char c :: nat) \<and> (of_char c :: nat) \<le> 90
      then char_of ((of_char c :: nat) + 32) else c)"

fun matchHere :: "string \<Rightarrow> string \<Rightarrow> bool" where
  "matchHere [] s = True"
| "matchHere (p # ps) [] = False"
| "matchHere (p # ps) (c # cs) = (to_lower c = to_lower p \<and> matchHere ps cs)"

fun matchAnywhere :: "string \<Rightarrow> string \<Rightarrow> bool" where
  "matchAnywhere p [] = matchHere p []"
| "matchAnywhere p (c # cs) = (matchHere p (c # cs) \<or> matchAnywhere p cs)"

datatype Regexp = Regexp (anchored: bool) (alternatives: "string list")

fun MatchString :: "Regexp \<Rightarrow> string \<Rightarrow> bool" where
  "MatchString (Regexp True ws) s = list_ex (\<lambda>w. matchHere w s) ws"
| "MatchString (Regexp False ws) s = list_ex (\<lambda>w. matchAnywhere w s) ws"

record BlockQuoteClassifier =
  patternMap :: "string \<rightharpoonup> Regexp"

definition LegacyBlockQuoteClassifier :: BlockQuoteClassifier where
  "LegacyBlockQuoteClassifier = \<lparr> patternMap =
     [''info'' \<mapsto> Regexp False [''info''],
      ''note'' \<mapsto> Regexp False [''note''],
      ''warn'' \<mapsto> Regexp False [''warn''],
      ''tip'' \<mapsto> Regexp False [''tip'']] \<rparr>"

definition GHAlertsBlockQuoteClassifier :: BlockQuoteClassifier where
  "GHAlertsBlockQuoteClassifier = \<lparr> patternMap =
     [''info'' \<mapsto> Regexp True [''!note'', ''!important''],
      ''note'' \<mapsto> Regexp True [''!warning''],
      ''warn'' \<mapsto> Regexp True [''!caution''],
      ''tip'' \<mapsto> Regexp True [''!tip'']] \<rparr>"

text \<open>
  \<open>classifier.patternMap[name].MatchString(literal)\<close>: a name that is not in the map
  gives a nil pattern, and matching through it panics.
\<close>

definition patternMatch :: "BlockQuoteClassifier \<Rightarrow> string \<Rightarrow> string \<Rightarrow> panic + bool" where
  "patternMatch classifier name literal =
     (case patternMap classifier name of
        None \<Rightarrow> Inl NilDereference
      | Some re \<Rightarrow> Inr (MatchString re literal))"

text \<open>
  The \<open>switch\<close> of \<open>ClassifyingBlockQuote\<close> evaluates its cases from the top and takes
  the first that holds; the cases below it are not evaluated.
\<close>

definition ClassifyingBlockQuote :: "BlockQuoteClassifier \<Rightarrow> string \<Rightarrow> panic + BlockQuoteType" where
  "ClassifyingBlockQuote classifier literal =
     (case patternMatch classifier ''info'' literal of
        Inl e \<Rightarrow> Inl e
      | Inr b1 \<Rightarrow> if b1 then Inr Info else
     (case patternMatch classifier ''note'' literal of
        Inl e \<Rightarrow> Inl e
      | Inr b2 \<Rightarrow> if b2 then Inr Note else
     (case patternMatch classifier ''warn'' literal of
        Inl e \<Rightarrow> Inl e
      | Inr b3 \<Rightarrow> if b3 then Inr Warn else
     (case patternMatch classifier ''tip'' literal of
        Inl e \<Rightarrow> Inl e
      | Inr b4 \<Rightarrow> if b4 then Inr Tip else Inr NoneBQ))))"

section \<open>The document tree of the host library\<close>

text \<open>
  The tree, its traversal and the output writer belong to the host library (goldmark); the
  source only calls them. They are modelled here as far as the source uses them.

  A node kind is a tag the host registers by name. The kinds that the source compares with
  are constructors of their own; \<open>KindOther name\<close> is any other registered kind.
\<close>

datatype NodeKind =
    KindDocument | KindBlockquote | KindParagraph | KindText | KindHTMLBlock
  | KindAdmonition | KindOther string

text \<open>
  A segment is a byte range of the source buffer, with a number of padding spaces put in
  front of its value. \<open>SegmentValue\<close> is the host's \<open>Segment.Value\<close>: the slice
  \<open>buffer[Start:Stop]\<close>, which panics outside the buffer.
\<close>

record Segment =
  Start :: int
  Stop :: int
  Padding :: int

definition SegmentValue :: "Segment \<Rightarrow> string \<Rightarrow> panic + string" where
  "SegmentValue seg buffer =
     (if 0 \<le> Start seg \<and> Start seg \<le> Stop seg \<and> Stop seg \<le> int (length buffer) \<and> 0 \<le> Padding seg
      then Inr (replicate (nat (Padding seg)) (CHR '' '')
                @ take (nat (Stop seg - Start seg)) (drop (nat (Start seg)) buffer))
      else Inl SliceBounds)"

type_synonym Attribute = "string \<times> string"

text \<open>
  The dynamic type of a node, with the data the source reads from it: a \<open>*ast.Text\<close> with
  its segment, a \<open>*ast.HTMLBlock\<close> with its lines, and any other implementation of the
  node interface with the kind its \<open>Kind\<close> method reports (which may be any kind at all).

  Modelled from the spec: the type \<open>Admonition\<close> and its kind \<open>KindAdmonition\<close> are
  declared in a file of the repository that is not among the sources. The spec describes
  the Admonition node as the node kind this renderer is registered for, carrying an
  optional attribute set; \<open>None\<close> is the nil attribute slice.
\<close>

datatype NodeImpl =
    Text Segment
  | HTMLBlock "Segment list"
  | Admonition "Attribute list option"
  | OtherNode NodeKind

datatype Node = Node (impl: NodeImpl) (children: "Node list")

fun implKind :: "NodeImpl \<Rightarrow> NodeKind" where
  "implKind (Text seg) = KindText"
| "implKind (HTMLBlock lines) = KindHTMLBlock"
| "implKind (Admonition attrs) = KindAdmonition"
| "implKind (OtherNode k) = k"

definition Kind :: "Node \<Rightarrow> NodeKind" where
  "Kind n = implKind (impl n)"

text \<open>The type assertions \<open>node.(*ast.Text)\<close>, \<open>node.(*ast.HTMLBlock)\<close> and \<open>node.(*Admonition)\<close>.\<close>

definition asText :: "Node \<Rightarrow> panic + Segment" where
  "asText n = (case impl n of Text seg \<Rightarrow> Inr seg | _ \<Rightarrow> Inl TypeAssertion)"

definition asHTMLBlock :: "Node \<Rightarrow> panic + Segment list" where
  "asHTMLBlock n = (case impl n of HTMLBlock lines \<Rightarrow> Inr lines | _ \<Rightarrow> Inl TypeAssertion)"

definition asAdmonition :: "Node \<Rightarrow> panic + Attribute list option" where
  "asAdmonition n = (case impl n of Admonition attrs \<Rightarrow> Inr attrs | _ \<Rightarrow> Inl TypeAssertion)"

text \<open>
  A node of the source is a pointer into one document tree, and the level map is keyed by
  that pointer. Here a document is the tree of its root, and a node reference is the path
  from the root to the node: the list of child positions. Two references are the same
  node exactly when they are the same path. A path that leads nowhere stands for nil.
\<close>

type_synonym NodeRef = "nat list"

fun subtree :: "Node \<Rightarrow> NodeRef \<Rightarrow> Node option" where
  "subtree n [] = Some n"
| "subtree n (i # p) = (if i < length (children n) then subtree (children n ! i) p else None)"

definition Parent :: "NodeRef \<Rightarrow> NodeRef option" where
  "Parent p = (if p = [] then None else Some (butlast p))"

definition NextSibling :: "Node \<Rightarrow> NodeRef \<Rightarrow> NodeRef option" where
  "NextSibling doc p =
     (if p = [] then None
      else (let q = butlast p @ [Suc (last p)]
            in if subtree doc q = None then None else Some q))"

subsection \<open>The host's traversal\<close>

datatype WalkStatus = WalkStop | WalkSkipChildren | WalkContinue

text \<open>
  \<open>ast.Walk\<close> calls the walker on a node when it enters it, walks the children from first
  to last, and calls the walker again when it leaves the node; \<open>WalkStop\<close> from any call
  ends the whole walk. The walkers of the source are closures over local variables: the
  model passes those variables as the state \<open>s\<close>. Both walkers always return a nil error,
  and both callers discard the error of \<open>ast.Walk\<close>, so a walker step yields a status only.
\<close>

fun walkHelper :: "(NodeRef \<Rightarrow> bool \<Rightarrow> 's \<Rightarrow> panic + 's \<times> WalkStatus) \<Rightarrow> Node \<Rightarrow> NodeRef \<Rightarrow> 's
                    \<Rightarrow> panic + 's \<times> WalkStatus"
  and walkChildren :: "(NodeRef \<Rightarrow> bool \<Rightarrow> 's \<Rightarrow> panic + 's \<times> WalkStatus) \<Rightarrow> Node list \<Rightarrow> NodeRef \<Rightarrow> nat \<Rightarrow> 's
                    \<Rightarrow> panic + 's \<times> WalkStatus"
where
  "walkHelper walker (Node x cs) p s =
     (case walker p True s of
        Inl e \<Rightarrow> Inl e
      | Inr (s1, status) \<Rightarrow>
          if status = WalkStop then Inr (s1, WalkStop)
          else
            (case (if status \<noteq> WalkSkipChildren then walkChildren walker cs p 0 s1
                   else Inr (s1, WalkContinue)) of
               Inl e \<Rightarrow> Inl e
             | Inr (s2, st) \<Rightarrow>
                 if st = WalkStop then Inr (s2, WalkStop)
                 else
                   (case walker p False s2 of
                      Inl e \<Rightarrow> Inl e
                    | Inr (s3, status') \<Rightarrow>
                        if status' = WalkStop then Inr (s3, WalkStop)
                        else Inr (s3, WalkContinue))))"
| "walkChildren walker [] p i s = Inr (s, WalkContinue)"
| "walkChildren walker (c # cs) p i s =
     (case walkHelper walker c (p @ [i]) s of
        Inl e \<Rightarrow> Inl e
      | Inr (s1, st) \<Rightarrow>
          if st = WalkStop then Inr (s1, WalkStop)
          else walkChildren walker cs p (Suc i) s1)"

definition Walk :: "(NodeRef \<Rightarrow> bool \<Rightarrow> 's \<Rightarrow> panic + 's \<times> WalkStatus) \<Rightarrow> Node \<Rightarrow> NodeRef \<Rightarrow> 's \<Rightarrow> panic + 's" where
  "Walk walker doc p s =
     (case subtree doc p of
        None \<Rightarrow> Inl NilDereference
      | Some n \<Rightarrow> (case walkHelper walker n p s of Inl e \<Rightarrow> Inl e | Inr (s', st) \<Rightarrow> Inr s'))"

section \<open>Resolving the type of a block quote\<close>

text \<open>Sequencing of steps that may panic: the first panic ends the computation.\<close>

definition bindP :: "panic + 'a \<Rightarrow> ('a \<Rightarrow> panic + 'b) \<Rightarrow> panic + 'b" where
  "bindP x f = (case x of Inl e \<Rightarrow> Inl e | Inr v \<Rightarrow> f v)"

text \<open>
  Lines 124 to 137 of \<open>ParseBlockQuoteType\<close>, entered when the Legacy classification of
  the Text node \<open>n\<close> at \<open>p\<close> is \<open>None\<close>: the result is the new value of \<open>t\<close>, which stays
  \<open>None\<close> unless the two next siblings are Text nodes and the texts are the two brackets.
\<close>

definition bracketAlert :: "Node \<Rightarrow> string \<Rightarrow> NodeRef \<Rightarrow> Segment \<Rightarrow> panic + BlockQuoteType" where
  "bracketAlert doc source p n =
     (case NextSibling doc p of
        None \<Rightarrow> Inr NoneBQ
      | Some mid \<Rightarrow>
          (case subtree doc mid of
             None \<Rightarrow> Inl NilDereference
           | Some midNode \<Rightarrow>
               if Kind midNode = KindText then
                 (let rightNode = NextSibling doc mid in
                  bindP (asText midNode) (\<lambda>midTextNode.
                    case rightNode of
                      None \<Rightarrow> Inr NoneBQ
                    | Some right \<Rightarrow>
                        (case subtree doc right of
                           None \<Rightarrow> Inl NilDereference
                         | Some rightN \<Rightarrow>
                             if Kind rightN = KindText then
                               bindP (asText rightN) (\<lambda>rightTextNode.
                               bindP (SegmentValue n source) (\<lambda>v.
                                 if v = ''['' then
                                   bindP (SegmentValue rightTextNode source) (\<lambda>rv.
                                     if rv = '']'' then
                                       bindP (SegmentValue midTextNode source)
                                         (ClassifyingBlockQuote GHAlertsBlockQuoteClassifier)
                                     else Inr NoneBQ)
                                 else Inr NoneBQ))
                             else Inr NoneBQ)))
               else Inr NoneBQ))"

text \<open>Lines 115 to 137: the new value of \<open>t\<close> after a node of kind Text is inspected.\<close>

definition inspectText :: "Node \<Rightarrow> string \<Rightarrow> NodeRef \<Rightarrow> Node \<Rightarrow> panic + BlockQuoteType" where
  "inspectText doc source p node =
     bindP (asText node) (\<lambda>n.
     bindP (SegmentValue n source) (\<lambda>v.
     bindP (ClassifyingBlockQuote LegacyBlockQuoteClassifier v) (\<lambda>t.
       if t = NoneBQ then bracketAlert doc source p n else Inr t)))"

text \<open>
  Lines 143 to 149, the loop over the lines of a raw HTML block: each line assigns \<open>t\<close>,
  and the first line that is not \<open>None\<close> ends the loop. With no line, \<open>t\<close> is unchanged.
\<close>

fun classifyLines :: "Segment list \<Rightarrow> string \<Rightarrow> BlockQuoteType \<Rightarrow> panic + BlockQuoteType" where
  "classifyLines [] source t = Inr t"
| "classifyLines (line # lines) source t =
     bindP (SegmentValue line source) (\<lambda>v.
     bindP (ClassifyingBlockQuote LegacyBlockQuoteClassifier v) (\<lambda>t'.
       if t' \<noteq> NoneBQ then Inr t' else classifyLines lines source t'))"

text \<open>
  The walker of \<open>ParseBlockQuoteType\<close>. Its state is the pair of the captured variables
  \<open>t\<close> and \<open>countParagraphs\<close>.
\<close>

definition parseWalker :: "Node \<Rightarrow> string \<Rightarrow> NodeRef \<Rightarrow> bool \<Rightarrow> BlockQuoteType \<times> int
                            \<Rightarrow> panic + (BlockQuoteType \<times> int) \<times> WalkStatus" where
  "parseWalker doc source p entering s =
     (case subtree doc p of
        None \<Rightarrow> Inl NilDereference
      | Some node \<Rightarrow>
          (let t = fst s;
               countParagraphs = (if Kind node = KindParagraph \<and> entering then snd s + 1 else snd s)
           in if countParagraphs < 2 \<and> entering then
                bindP (if Kind node = KindText
                       then bindP (inspectText doc source p node) (\<lambda>t'. Inr (t', countParagraphs + 1))
                       else Inr (t, countParagraphs)) (\<lambda>s1.
                bindP (if Kind node = KindHTMLBlock
                       then bindP (asHTMLBlock node) (\<lambda>lines.
                            bindP (classifyLines lines source (fst s1)) (\<lambda>t'. Inr (t', snd s1 + 1)))
                       else Inr s1) (\<lambda>s2.
                Inr (s2, WalkContinue)))
              else if countParagraphs > 1 \<and> entering then Inr ((t, countParagraphs), WalkStop)
              else Inr ((t, countParagraphs), WalkContinue)))"

definition ParseBlockQuoteType :: "Node \<Rightarrow> NodeRef \<Rightarrow> string \<Rightarrow> panic + BlockQuoteType" where
  "ParseBlockQuoteType doc node source =
     bindP (Walk (parseWalker doc source) doc node (NoneBQ, 0)) (\<lambda>s. Inr (fst s))"

section \<open>The nesting level of block quotes\<close>

type_synonym BlockQuoteLevelMap = "NodeRef \<rightharpoonup> int"

text \<open>\<open>m[node]\<close> of a Go map is the zero value when the key has no entry.\<close>

definition Level :: "BlockQuoteLevelMap \<Rightarrow> NodeRef \<Rightarrow> int" where
  "Level m node = (case m node of None \<Rightarrow> 0 | Some l \<Rightarrow> l)"

text \<open>The loop \<open>for rootNode.Parent() != nil\<close> of \<open>GenerateBlockQuoteLevel\<close>.\<close>

function rootNode :: "NodeRef \<Rightarrow> NodeRef" where
  "rootNode p = (case Parent p of None \<Rightarrow> p | Some q \<Rightarrow> rootNode q)"
  by pat_completeness auto
termination
  by (relation "measure length") (auto simp: Parent_def split: if_splits)

declare rootNode.simps [simp del]

text \<open>
  The walker of \<open>GenerateBlockQuoteLevel\<close>; its state is the pair of \<open>blockQuoteLevel\<close>
  and \<open>blockQuoteLevelMap\<close>.
\<close>

definition levelWalker :: "Node \<Rightarrow> NodeRef \<Rightarrow> bool \<Rightarrow> int \<times> BlockQuoteLevelMap
                            \<Rightarrow> panic + (int \<times> BlockQuoteLevelMap) \<times> WalkStatus" where
  "levelWalker doc p entering s =
     (case subtree doc p of
        None \<Rightarrow> Inl NilDereference
      | Some node \<Rightarrow>
          (let s1 = (if Kind node = KindBlockquote \<and> entering
                     then (fst s + 1, (snd s)(p \<mapsto> fst s)) else s);
               s2 = (if Kind node = KindBlockquote \<and> \<not> entering
                     then (fst s1 - 1, snd s1) else s1)
           in Inr (s2, WalkContinue)))"

definition GenerateBlockQuoteLevel :: "Node \<Rightarrow> NodeRef \<Rightarrow> panic + BlockQuoteLevelMap" where
  "GenerateBlockQuoteLevel doc someNode =
     (case subtree doc someNode of
        None \<Rightarrow> Inl NilDereference
      | Some n \<Rightarrow>
          bindP (Walk (levelWalker doc) doc (rootNode someNode) (0, Map.empty)) (\<lambda>s. Inr (snd s)))"

section \<open>Rendering\<close>

text \<open>
  The output sink of the host. It holds what has been written and the outcomes of the
  writes to come. \<open>Rejected k\<close> in \<open>failures\<close> is a write that the sink ends with an
  error after it has taken the first \<open>k\<close> bytes (all of them when there are fewer): a
  write may fail part of the way. \<open>Accepted\<close> is a write that succeeds, and when the list
  is used up every write succeeds. \<open>WriteString\<close> and \<open>WriteByte\<close> of the host behave
  as \<open>Write\<close>.
\<close>

datatype WriteError = WriteError

datatype WriteOutcome = Accepted | Rejected nat

record BufWriter =
  written :: string
  failures :: "WriteOutcome list"

definition Write :: "BufWriter \<Rightarrow> string \<Rightarrow> BufWriter \<times> WriteError option" where
  "Write w bs =
     (case failures w of
        [] \<Rightarrow> (w\<lparr>written := written w @ bs\<rparr>, None)
      | Accepted # fs \<Rightarrow> (w\<lparr>written := written w @ bs, failures := fs\<rparr>, None)
      | Rejected k # fs \<Rightarrow> (w\<lparr>written := written w @ take k bs, failures := fs\<rparr>, Some WriteError))"

definition WriteString :: "BufWriter \<Rightarrow> string \<Rightarrow> BufWriter \<times> WriteError option" where
  "WriteString w str = Write w str"

definition WriteByte :: "BufWriter \<Rightarrow> char \<Rightarrow> BufWriter \<times> WriteError option" where
  "WriteByte w c = Write w [c]"

text \<open>
  The renderer. Of its fields the functions below read only \<open>LevelMap\<close>, which is nil
  (\<open>None\<close>) until the first call of \<open>renderAdmon\<close>.
\<close>

record Renderer =
  LevelMap :: "BlockQuoteLevelMap option"

text \<open>
  \<open>renderAdmonition\<close>, the plain block quote. The host's \<open>html.RenderAttributes\<close> with the
  filter \<open>AdmonitionAttributeFilter\<close> is the parameter \<open>renderAttributes\<close>: it writes
  to the sink and returns nothing. The results of all three writes are discarded.
\<close>

definition renderAdmonition :: "(BufWriter \<Rightarrow> Attribute list \<Rightarrow> BufWriter) \<Rightarrow> BufWriter \<Rightarrow> string \<Rightarrow> Node \<Rightarrow> NodeRef \<Rightarrow> bool
                                 \<Rightarrow> panic + BufWriter \<times> WalkStatus \<times> WriteError option" where
  "renderAdmonition renderAttributes w source doc node entering =
     (case subtree doc node of
        None \<Rightarrow> Inl NilDereference
      | Some nd \<Rightarrow>
          bindP (asAdmonition nd) (\<lambda>attrs.
            if entering then
              (case attrs of
                 Some as \<Rightarrow>
                   (let w1 = fst (WriteString w ''<blockquote'');
                        w2 = renderAttributes w1 as;
                        w3 = fst (WriteByte w2 (CHR ''>''))
                    in Inr (w3, WalkContinue, None))
               | None \<Rightarrow> Inr (fst (WriteString w (''<blockquote>'' @ [CHR 0x0A])), WalkContinue, None))
            else Inr (fst (WriteString w (''</blockquote>'' @ [CHR 0x0A])), WalkContinue, None)))"

definition macroPrefix :: "BlockQuoteType \<Rightarrow> string" where
  "macroPrefix quoteType =
     ''<ac:structured-macro ac:name=\"'' @ BlockQuoteType_String quoteType
       @ ''\"><ac:parameter ac:name=\"icon\">true</ac:parameter><ac:rich-text-body>'' @ [CHR 0x0A]"

definition macroSuffix :: string where
  "macroSuffix = ''</ac:rich-text-body></ac:structured-macro>'' @ [CHR 0x0A]"

text \<open>
  \<open>renderAdmon\<close>. The renderer is a pointer in the source and its level map is assigned
  in the call; the model returns the renderer after the call with the sink, the status
  and the error. \<open>initLevelMap\<close> is lines 188 to 190: the level map in use after them.
\<close>

definition initLevelMap :: "Renderer \<Rightarrow> Node \<Rightarrow> NodeRef \<Rightarrow> panic + BlockQuoteLevelMap" where
  "initLevelMap r doc node =
     (case LevelMap r of
        None \<Rightarrow> GenerateBlockQuoteLevel doc node
      | Some m \<Rightarrow> Inr m)"

definition renderAdmon :: "(BufWriter \<Rightarrow> Attribute list \<Rightarrow> BufWriter) \<Rightarrow> Renderer \<Rightarrow> BufWriter \<Rightarrow> string \<Rightarrow> Node \<Rightarrow> NodeRef \<Rightarrow> bool
                            \<Rightarrow> panic + Renderer \<times> BufWriter \<times> WalkStatus \<times> WriteError option" where
  "renderAdmon renderAttributes r writer source doc node entering =
     bindP (initLevelMap r doc node) (\<lambda>m.
     let r' = r\<lparr>LevelMap := Some m\<rparr> in
     bindP (ParseBlockQuoteType doc node source) (\<lambda>quoteType.
     let quoteLevel = Level m node in
     if quoteLevel = 0 \<and> entering \<and> quoteType \<noteq> NoneBQ then
       (case Write writer (macroPrefix quoteType) of
          (w', Some err) \<Rightarrow> Inr (r', w', WalkStop, Some err)
        | (w', None) \<Rightarrow> Inr (r', w', WalkContinue, None))
     else if quoteLevel = 0 \<and> \<not> entering \<and> quoteType \<noteq> NoneBQ then
       (case Write writer macroSuffix of
          (w', Some err) \<Rightarrow> Inr (r', w', WalkStop, Some err)
        | (w', None) \<Rightarrow> Inr (r', w', WalkContinue, None))
     else
       bindP (renderAdmonition renderAttributes writer source doc node entering) (\<lambda>res.
         Inr (r', res))))"

section \<open>The classifiers in the words of the specification\<close>

text \<open>
  The specification describes the two standard configurations by what a text begins with
  or contains, letter case aside. These two predicates say that directly; the patterns
  above are compared with them below.
\<close>

definition spec_begins_ci :: "string \<Rightarrow> string \<Rightarrow> bool" where
  "spec_begins_ci w s \<longleftrightarrow> (\<exists>u v. s = u @ v \<and> map to_lower u = map to_lower w)"

definition spec_contains_ci :: "string \<Rightarrow> string \<Rightarrow> bool" where
  "spec_contains_ci w s \<longleftrightarrow> (\<exists>a u v. s = a @ u @ v \<and> map to_lower u = map to_lower w)"

section \<open>The level map in the words of the specification\<close>

text \<open>
  \<open>KindAt doc p\<close> is the kind of the node at \<open>p\<close>, if there is one. The nodes that
  enclose the node at \<open>p\<close> are the nodes at the proper prefixes \<open>take k p\<close> of its path,
  for \<open>k < length p\<close>. \<open>enclosingBlockquotes n p\<close> counts the block quotes among them,
  going down from \<open>n\<close> along \<open>p\<close>.
\<close>

definition KindAt :: "Node \<Rightarrow> NodeRef \<Rightarrow> NodeKind option" where
  "KindAt doc p = map_option Kind (subtree doc p)"

fun enclosingBlockquotes :: "Node \<Rightarrow> NodeRef \<Rightarrow> nat" where
  "enclosingBlockquotes n [] = 0"
| "enclosingBlockquotes n (i # p) =
     (if Kind n = KindBlockquote then 1 else 0)
     + (if i < length (children n) then enclosingBlockquotes (children n ! i) p else 0)"

text \<open>
  What the walk of \<open>GenerateBlockQuoteLevel\<close> does to the level map, written as a
  recursion over the tree: \<open>levelsNode n p lvl m\<close> is the map after the walk of the
  subtree \<open>n\<close> at \<open>p\<close> that starts with the level \<open>lvl\<close> and the map \<open>m\<close>.
\<close>

fun levelsNode :: "Node \<Rightarrow> NodeRef \<Rightarrow> int \<Rightarrow> BlockQuoteLevelMap \<Rightarrow> BlockQuoteLevelMap"
  and levelsList :: "Node list \<Rightarrow> NodeRef \<Rightarrow> nat \<Rightarrow> int \<Rightarrow> BlockQuoteLevelMap \<Rightarrow> BlockQuoteLevelMap"
where
  "levelsNode (Node x cs) p lvl m =
     (if implKind x = KindBlockquote then levelsList cs p 0 (lvl + 1) (m(p \<mapsto> lvl))
      else levelsList cs p 0 lvl m)"
| "levelsList [] p i lvl m = m"
| "levelsList (c # cs) p i lvl m = levelsList cs p (Suc i) lvl (levelsNode c (p @ [i]) lvl m)"

text \<open>
  Two abbreviations for the proofs about the level map: the entry that the walk of a
  subtree leaves at a relative path, and the statement that \<open>levelsNode\<close> leaves
  exactly these entries and touches nothing outside the subtree.
\<close>

definition entryAt :: "Node \<Rightarrow> NodeRef \<Rightarrow> int \<Rightarrow> int option \<Rightarrow> int option" where
  "entryAt n r lvl old =
     (case subtree n r of
        Some x \<Rightarrow> if Kind x = KindBlockquote then Some (lvl + int (enclosingBlockquotes n r)) else old
      | None \<Rightarrow> old)"

definition levelsNode_ok :: "Node \<Rightarrow> bool" where
  "levelsNode_ok n \<longleftrightarrow>
     (\<forall>p lvl m. (\<forall>r. levelsNode n p lvl m (p @ r) = entryAt n r lvl (m (p @ r)))
               \<and> (\<forall>q. (\<forall>r. q \<noteq> p @ r) \<longrightarrow> levelsNode n p lvl m q = m q))"

section \<open>The calls that a walk makes\<close>

text \<open>
  To speak about what a walk inspects and where it halts, the calls of the walker are
  recorded: \<open>traced walker\<close> behaves as \<open>walker\<close> on the first component of the state
  and appends one event for each call to the second, with the node, the direction, the
  state before and after the call and the status returned. The record is a device of the
  proofs only; \<open>ParseBlockQuoteType\<close> above does not depend on it.
\<close>

record 's WalkEvent =
  evNode :: NodeRef
  evEntering :: bool
  evBefore :: 's
  evAfter :: 's
  evStatus :: WalkStatus

definition traced :: "(NodeRef \<Rightarrow> bool \<Rightarrow> 's \<Rightarrow> panic + 's \<times> WalkStatus)
                      \<Rightarrow> NodeRef \<Rightarrow> bool \<Rightarrow> 's \<times> 's WalkEvent list
                      \<Rightarrow> panic + ('s \<times> 's WalkEvent list) \<times> WalkStatus" where
  "traced walker p entering sl =
     (case walker p entering (fst sl) of
        Inl e \<Rightarrow> Inl e
      | Inr (s', st) \<Rightarrow>
          Inr ((s', snd sl @ [\<lparr>evNode = p, evEntering = entering, evBefore = fst sl,
                                  evAfter = s', evStatus = st\<rparr>]), st))"

text \<open>
  The calls of the walk of \<open>ParseBlockQuoteType\<close>, with the final values of \<open>t\<close> and
  \<open>countParagraphs\<close>.
\<close>

definition parseTrace :: "Node \<Rightarrow> NodeRef \<Rightarrow> string
    \<Rightarrow> panic + (BlockQuoteType \<times> int) \<times> (BlockQuoteType \<times> int) WalkEvent list" where
  "parseTrace doc node source = Walk (traced (parseWalker doc source)) doc node ((NoneBQ, 0), [])"

text \<open>
  An event is a paragraph entry when the walker enters a node of the kind Paragraph
  (line 109). It inspects content when the walker reaches the classification of a Text
  node or of the lines of a raw HTML block: an entering call, on a node of one of these
  two kinds, with the counter below 2 (lines 113, 114 and 140).
\<close>

definition paragraphEntry :: "Node \<Rightarrow> (BlockQuoteType \<times> int) WalkEvent \<Rightarrow> bool" where
  "paragraphEntry doc e \<longleftrightarrow> evEntering e \<and> KindAt doc (evNode e) = Some KindParagraph"

definition inspects :: "Node \<Rightarrow> (BlockQuoteType \<times> int) WalkEvent \<Rightarrow> bool" where
  "inspects doc e \<longleftrightarrow>
     evEntering e \<and> snd (evBefore e) < 2
     \<and> (KindAt doc (evNode e) = Some KindText \<or> KindAt doc (evNode e) = Some KindHTMLBlock)"

text \<open>
  Forgetting the record of the calls, and the invariants of the walk of
  \<open>ParseBlockQuoteType\<close> used in the proofs below: \<open>parseRunning\<close> holds while no call
  has returned \<open>WalkStop\<close>, \<open>parseHalted\<close> once one has.
\<close>

definition eraseTrace :: "panic + ('s \<times> 's WalkEvent list) \<times> WalkStatus \<Rightarrow> panic + 's \<times> WalkStatus" where
  "eraseTrace r = (case r of Inl e \<Rightarrow> Inl e | Inr (sl, st) \<Rightarrow> Inr (fst sl, st))"

definition eventsOK :: "Node \<Rightarrow> string \<Rightarrow> (BlockQuoteType \<times> int) WalkEvent list \<Rightarrow> bool" where
  "eventsOK doc source log \<longleftrightarrow>
     (\<forall>ev\<in>set log. parseWalker doc source (evNode ev) (evEntering ev) (evBefore ev)
                      = Inr (evAfter ev, evStatus ev))
     \<and> (\<forall>i<length log. inspects doc (log ! i)
           \<longrightarrow> length (filter (paragraphEntry doc) (take (Suc i) log)) \<le> 1)"

definition parseRunning :: "Node \<Rightarrow> string
    \<Rightarrow> (BlockQuoteType \<times> int) \<times> (BlockQuoteType \<times> int) WalkEvent list \<Rightarrow> bool" where
  "parseRunning doc source sl \<longleftrightarrow>
     (\<forall>ev\<in>set (snd sl). evStatus ev \<noteq> WalkStop)
     \<and> snd (fst sl) = int (length (filter (paragraphEntry doc) (snd sl)))
                        + int (length (filter (inspects doc) (snd sl)))
     \<and> length (filter (paragraphEntry doc) (snd sl)) \<le> 1
     \<and> snd (fst sl) \<le> 2
     \<and> eventsOK doc source (snd sl)"

definition parseHalted :: "Node \<Rightarrow> string
    \<Rightarrow> (BlockQuoteType \<times> int) \<times> (BlockQuoteType \<times> int) WalkEvent list \<Rightarrow> bool" where
  "parseHalted doc source sl \<longleftrightarrow>
     (\<forall>i<length (snd sl). evStatus (snd sl ! i) = WalkStop \<longrightarrow> Suc i = length (snd sl))
     \<and> length (filter (paragraphEntry doc) (snd sl)) \<le> 2
     \<and> length (filter (inspects doc) (snd sl)) \<le> 2
     \<and> eventsOK doc source (snd sl)"

section \<open>Properties of the classifiers\<close>

lemma matchHere_begins: "matchHere p s = spec_begins_ci p s"
  unfolding spec_begins_ci_def
proof (induction p s rule: matchHere.induct)
  case (3 p ps c cs)
  show ?case
  proof
    assume "matchHere (p # ps) (c # cs)"
    then have a: "to_lower c = to_lower p" and b: "matchHere ps cs" by simp_all
    from b 3 obtain u v where "cs = u @ v" "map to_lower u = map to_lower ps" by blast
    with a have "c # cs = (c # u) @ v \<and> map to_lower (c # u) = map to_lower (p # ps)" by simp
    then show "\<exists>u v. c # cs = u @ v \<and> map to_lower u = map to_lower (p # ps)" by blast
  next
    assume "\<exists>u v. c # cs = u @ v \<and> map to_lower u = map to_lower (p # ps)"
    then obtain u v where uv: "c # cs = u @ v" "map to_lower u = map to_lower (p # ps)" by blast
    then obtain u' where u': "u = c # u'" by (cases u) auto
    with uv have "cs = u' @ v" "map to_lower u' = map to_lower ps" "to_lower c = to_lower p" by auto
    with 3 show "matchHere (p # ps) (c # cs)" by auto
  qed
qed auto

lemma matchAnywhere_contains: "matchAnywhere p s = spec_contains_ci p s"
  unfolding spec_contains_ci_def
proof (induction s)
  case Nil
  then show ?case by (cases p) auto
next
  case (Cons c cs)
  show ?case
  proof
    assume "matchAnywhere p (c # cs)"
    then consider "matchHere p (c # cs)" | "matchAnywhere p cs" by auto
    then show "\<exists>a u v. c # cs = a @ u @ v \<and> map to_lower u = map to_lower p"
    proof cases
      case 1
      then obtain u v where "c # cs = u @ v" "map to_lower u = map to_lower p"
        using matchHere_begins spec_begins_ci_def by blast
      then have "c # cs = [] @ u @ v \<and> map to_lower u = map to_lower p" by simp
      then show ?thesis by blast
    next
      case 2
      with Cons obtain a u v where "cs = a @ u @ v" "map to_lower u = map to_lower p" by blast
      then have "c # cs = (c # a) @ u @ v \<and> map to_lower u = map to_lower p" by simp
      then show ?thesis by blast
    qed
  next
    assume "\<exists>a u v. c # cs = a @ u @ v \<and> map to_lower u = map to_lower p"
    then obtain a u v where auv: "c # cs = a @ u @ v" "map to_lower u = map to_lower p" by blast
    show "matchAnywhere p (c # cs)"
    proof (cases a)
      case Nil
      with auv have "matchHere p (c # cs)" using matchHere_begins spec_begins_ci_def by auto
      then show ?thesis by simp
    next
      case (Cons x a')
      with auv have "cs = a' @ u @ v" by simp
      with auv Cons.IH have "matchAnywhere p cs" by blast
      then show ?thesis by simp
    qed
  qed
qed

text \<open>
  Claim C5. For every input string, the Alert classifier gives \<open>Info\<close> to a string that
  begins, letter case aside, with \<open>!note\<close> or \<open>!important\<close>, \<open>Note\<close> to one that begins
  with \<open>!warning\<close>, \<open>Warn\<close> to one that begins with \<open>!caution\<close>, \<open>Tip\<close> to one that begins
  with \<open>!tip\<close>, and \<open>None\<close> to every other string. It never panics.
\<close>

theorem GHAlerts_classification:
  "ClassifyingBlockQuote GHAlertsBlockQuoteClassifier s =
     Inr (if spec_begins_ci ''!note'' s \<or> spec_begins_ci ''!important'' s then Info
          else if spec_begins_ci ''!warning'' s then Note
          else if spec_begins_ci ''!caution'' s then Warn
          else if spec_begins_ci ''!tip'' s then Tip
          else NoneBQ)"
  by (simp add: ClassifyingBlockQuote_def patternMatch_def GHAlertsBlockQuoteClassifier_def
      matchHere_begins)

theorem GHAlerts_classification_witness:
  "ClassifyingBlockQuote GHAlertsBlockQuoteClassifier ''!Caution: hot'' = Inr Warn
   \<and> (if spec_begins_ci ''!note'' ''!Caution: hot'' \<or> spec_begins_ci ''!important'' ''!Caution: hot'' then Info
          else if spec_begins_ci ''!warning'' ''!Caution: hot'' then Note
          else if spec_begins_ci ''!caution'' ''!Caution: hot'' then Warn
          else if spec_begins_ci ''!tip'' ''!Caution: hot'' then Tip
          else NoneBQ) = Warn"
proof -
  have e: "ClassifyingBlockQuote GHAlertsBlockQuoteClassifier ''!Caution: hot'' = Inr Warn"
    by code_simp
  from GHAlerts_classification [of "''!Caution: hot''"] e show ?thesis
    by (simp only: sum.inject simp_thms)
qed

text \<open>
  Claim C6. For every input string, \<open>ClassifyingBlockQuote\<close> tests the configured patterns
  in the order info, note, warn, tip and returns the kind of the first that matches, or
  \<open>None\<close> when none matches. In the Legacy configuration the pattern of a name matches
  exactly when the string contains that word somewhere, letter case aside.
\<close>

theorem ClassifyingBlockQuote_priority:
  "(patternMap c ''info'' = Some ri \<and> patternMap c ''note'' = Some rn
      \<and> patternMap c ''warn'' = Some rw \<and> patternMap c ''tip'' = Some rt
    \<longrightarrow> ClassifyingBlockQuote c s =
          Inr (if MatchString ri s then Info
               else if MatchString rn s then Note
               else if MatchString rw s then Warn
               else if MatchString rt s then Tip
               else NoneBQ))
   \<and> (\<forall>w \<in> {''info'', ''note'', ''warn'', ''tip''}.
        \<exists>re. patternMap LegacyBlockQuoteClassifier w = Some re
           \<and> (MatchString re s \<longleftrightarrow> spec_contains_ci w s))
   \<and> ClassifyingBlockQuote LegacyBlockQuoteClassifier s =
          Inr (if spec_contains_ci ''info'' s then Info
               else if spec_contains_ci ''note'' s then Note
               else if spec_contains_ci ''warn'' s then Warn
               else if spec_contains_ci ''tip'' s then Tip
               else NoneBQ)"
proof (intro conjI impI)
  assume "patternMap c ''info'' = Some ri \<and> patternMap c ''note'' = Some rn
      \<and> patternMap c ''warn'' = Some rw \<and> patternMap c ''tip'' = Some rt"
  then show "ClassifyingBlockQuote c s =
          Inr (if MatchString ri s then Info
               else if MatchString rn s then Note
               else if MatchString rw s then Warn
               else if MatchString rt s then Tip
               else NoneBQ)"
    by (simp add: ClassifyingBlockQuote_def patternMatch_def)
next
  show "\<forall>w \<in> {''info'', ''note'', ''warn'', ''tip''}.
        \<exists>re. patternMap LegacyBlockQuoteClassifier w = Some re
           \<and> (MatchString re s \<longleftrightarrow> spec_contains_ci w s)"
    by (simp add: LegacyBlockQuoteClassifier_def matchAnywhere_contains)
next
  show "ClassifyingBlockQuote LegacyBlockQuoteClassifier s =
          Inr (if spec_contains_ci ''info'' s then Info
               else if spec_contains_ci ''note'' s then Note
               else if spec_contains_ci ''warn'' s then Warn
               else if spec_contains_ci ''tip'' s then Tip
               else NoneBQ)"
    by (simp add: ClassifyingBlockQuote_def patternMatch_def LegacyBlockQuoteClassifier_def
        matchAnywhere_contains)
qed


theorem ClassifyingBlockQuote_priority_witness:
  "patternMap LegacyBlockQuoteClassifier ''info'' = Some (Regexp False [''info''])
   \<and> patternMap LegacyBlockQuoteClassifier ''note'' = Some (Regexp False [''note''])
   \<and> patternMap LegacyBlockQuoteClassifier ''warn'' = Some (Regexp False [''warn''])
   \<and> patternMap LegacyBlockQuoteClassifier ''tip'' = Some (Regexp False [''tip''])
   \<and> \<not> MatchString (Regexp False [''info'']) ''This is a NOTE:''
   \<and> MatchString (Regexp False [''note'']) ''This is a NOTE:''
   \<and> ''note'' \<in> {''info'', ''note'', ''warn'', ''tip''}
   \<and> spec_contains_ci ''note'' ''This is a NOTE:''
   \<and> ClassifyingBlockQuote LegacyBlockQuoteClassifier ''This is a NOTE:'' = Inr Note"
proof -
  let ?s = "''This is a NOTE:''"
  have h: "patternMap LegacyBlockQuoteClassifier ''info'' = Some (Regexp False [''info''])
      \<and> patternMap LegacyBlockQuoteClassifier ''note'' = Some (Regexp False [''note''])
      \<and> patternMap LegacyBlockQuoteClassifier ''warn'' = Some (Regexp False [''warn''])
      \<and> patternMap LegacyBlockQuoteClassifier ''tip'' = Some (Regexp False [''tip''])"
    by (simp add: LegacyBlockQuoteClassifier_def)
  have m1: "\<not> MatchString (Regexp False [''info'']) ?s" by code_simp
  have m2: "MatchString (Regexp False [''note'']) ?s" by code_simp
  have mem: "''note'' \<in> {''info'', ''note'', ''warn'', ''tip''}" by simp
  note inst = ClassifyingBlockQuote_priority [of LegacyBlockQuoteClassifier
      "Regexp False [''info'']" "Regexp False [''note'']" "Regexp False [''warn'']"
      "Regexp False [''tip'']" ?s]
  from inst h m1 m2 have r: "ClassifyingBlockQuote LegacyBlockQuoteClassifier ?s = Inr Note"
    by simp
  from inst mem obtain re where re: "patternMap LegacyBlockQuoteClassifier ''note'' = Some re"
      "MatchString re ?s \<longleftrightarrow> spec_contains_ci ''note'' ?s"
    by blast
  with h m2 have c: "spec_contains_ci ''note'' ?s" by simp
  from h m1 m2 mem c r show ?thesis by blast
qed

section \<open>Properties of the renderer\<close>

lemma renderAdmonition_Admonition:
  assumes "subtree doc node = Some nd" and "impl nd = Admonition attrs"
  shows "\<exists>w'. renderAdmonition ra w source doc node entering = Inr (w', WalkContinue, None)"
  using assms
  by (simp add: renderAdmonition_def bindP_def asAdmonition_def Let_def split: option.splits)

lemma renderAdmonition_not_Admonition:
  assumes "subtree doc node = Some nd" and "\<forall>attrs. impl nd \<noteq> Admonition attrs"
  shows "renderAdmonition ra w source doc node entering = Inl TypeAssertion"
  using assms
  by (simp add: renderAdmonition_def bindP_def asAdmonition_def split: NodeImpl.splits)

text \<open>
  Claim C9. A call of \<open>renderAdmonition\<close> with a node whose dynamic type is not
  \<open>*Admonition\<close> ends in the panic of the type assertion: no status and no error are
  returned. With a node that is an Admonition the call returns, so the panic cannot
  happen there.
\<close>

theorem renderAdmonition_type_assertion:
  "(subtree doc node = Some nd \<and> (\<forall>attrs. impl nd \<noteq> Admonition attrs)
      \<longrightarrow> renderAdmonition ra w source doc node entering = Inl TypeAssertion)
   \<and> (subtree doc node = Some nd \<and> impl nd = Admonition attrs
      \<longrightarrow> (\<exists>w'. renderAdmonition ra w source doc node entering = Inr (w', WalkContinue, None)))"
  using renderAdmonition_Admonition renderAdmonition_not_Admonition by blast

theorem renderAdmonition_type_assertion_witness:
  "subtree (Node (OtherNode KindDocument) [Node (OtherNode KindBlockquote) [], Node (Admonition None) []]) [0]
     = Some (Node (OtherNode KindBlockquote) [])
   \<and> (\<forall>attrs. impl (Node (OtherNode KindBlockquote) []) \<noteq> Admonition attrs)
   \<and> renderAdmonition (\<lambda>w as. w) \<lparr>written = [], failures = []\<rparr> []
        (Node (OtherNode KindDocument) [Node (OtherNode KindBlockquote) [], Node (Admonition None) []]) [0] True
      = Inl TypeAssertion
   \<and> subtree (Node (OtherNode KindDocument) [Node (OtherNode KindBlockquote) [], Node (Admonition None) []]) [1]
     = Some (Node (Admonition None) [])
   \<and> impl (Node (Admonition None) []) = Admonition None
   \<and> (\<exists>w'. renderAdmonition (\<lambda>w as. w) \<lparr>written = [], failures = []\<rparr> []
        (Node (OtherNode KindDocument) [Node (OtherNode KindBlockquote) [], Node (Admonition None) []]) [1] True
      = Inr (w', WalkContinue, None))"
proof -
  let ?doc = "Node (OtherNode KindDocument) [Node (OtherNode KindBlockquote) [], Node (Admonition None) []]"
  have a: "subtree ?doc [0] = Some (Node (OtherNode KindBlockquote) [])" by simp
  have b: "\<forall>attrs. impl (Node (OtherNode KindBlockquote) []) \<noteq> Admonition attrs" by simp
  have c: "subtree ?doc [1] = Some (Node (Admonition None) [])" by simp
  have d: "impl (Node (Admonition None) []) = Admonition None" by simp
  from renderAdmonition_type_assertion [of ?doc "[0]" "Node (OtherNode KindBlockquote) []" "\<lambda>w as. w"
      "\<lparr>written = [], failures = []\<rparr>" "[]" True] a b
  have e: "renderAdmonition (\<lambda>w as. w) \<lparr>written = [], failures = []\<rparr> [] ?doc [0] True = Inl TypeAssertion"
    by blast
  from renderAdmonition_type_assertion [of ?doc "[1]" "Node (Admonition None) []" "\<lambda>w as. w"
      "\<lparr>written = [], failures = []\<rparr>" "[]" True None] c d
  have f: "\<exists>w'. renderAdmonition (\<lambda>w as. w) \<lparr>written = [], failures = []\<rparr> [] ?doc [1] True
      = Inr (w', WalkContinue, None)"
    by blast
  from a b c d e f show ?thesis by blast
qed

lemma renderAdmon_macro:
  assumes "initLevelMap r doc node = Inr m" and "ParseBlockQuoteType doc node source = Inr qt"
    and "Level m node = 0" and "qt \<noteq> NoneBQ"
  shows "renderAdmon ra r w source doc node entering =
           (case Write w (if entering then macroPrefix qt else macroSuffix) of
              (w', Some err) \<Rightarrow> Inr (r\<lparr>LevelMap := Some m\<rparr>, w', WalkStop, Some err)
            | (w', None) \<Rightarrow> Inr (r\<lparr>LevelMap := Some m\<rparr>, w', WalkContinue, None))"
  using assms by (simp add: renderAdmon_def bindP_def Let_def)

lemma renderAdmon_plain:
  assumes "initLevelMap r doc node = Inr m" and "ParseBlockQuoteType doc node source = Inr qt"
    and "Level m node \<noteq> 0 \<or> qt = NoneBQ"
  shows "renderAdmon ra r w source doc node entering =
           bindP (renderAdmonition ra w source doc node entering)
             (\<lambda>res. Inr (r\<lparr>LevelMap := Some m\<rparr>, res))"
  using assms by (auto simp add: renderAdmon_def bindP_def Let_def)

lemma Write_accepted:
  "snd (Write w bs) = None \<Longrightarrow> written (fst (Write w bs)) = written w @ bs"
  by (simp add: Write_def split: list.splits WriteOutcome.splits)

text \<open>
  Claim C1. Let the level map in use give the node depth 0 and let its resolved type be
  not \<open>None\<close>. Then the entering visit of \<open>renderAdmon\<close> makes one write, of exactly the
  opening string of the structured macro with the label of the type and a newline, and
  the leaving visit makes one write, of exactly the closing string and a newline; a write
  that the sink accepts appends exactly the written string. For a node with depth
  greater than 0 or with type \<open>None\<close>, both visits are the plain block quote rendering of
  \<open>renderAdmonition\<close>.
\<close>

theorem renderAdmon_emission:
  assumes "initLevelMap r doc node = Inr m" and "ParseBlockQuoteType doc node source = Inr qt"
  shows "(Level m node = 0 \<and> qt \<noteq> NoneBQ \<longrightarrow>
            renderAdmon ra r w source doc node True =
              (case Write w (''<ac:structured-macro ac:name=\"'' @ BlockQuoteType_String qt
                       @ ''\"><ac:parameter ac:name=\"icon\">true</ac:parameter><ac:rich-text-body>''
                       @ [CHR 0x0A]) of
                 (w', Some err) \<Rightarrow> Inr (r\<lparr>LevelMap := Some m\<rparr>, w', WalkStop, Some err)
               | (w', None) \<Rightarrow> Inr (r\<lparr>LevelMap := Some m\<rparr>, w', WalkContinue, None))
          \<and> renderAdmon ra r w source doc node False =
              (case Write w (''</ac:rich-text-body></ac:structured-macro>'' @ [CHR 0x0A]) of
                 (w', Some err) \<Rightarrow> Inr (r\<lparr>LevelMap := Some m\<rparr>, w', WalkStop, Some err)
               | (w', None) \<Rightarrow> Inr (r\<lparr>LevelMap := Some m\<rparr>, w', WalkContinue, None)))
       \<and> (\<forall>bs. snd (Write w bs) = None \<longrightarrow> written (fst (Write w bs)) = written w @ bs)
       \<and> (0 < Level m node \<or> qt = NoneBQ \<longrightarrow>
            (\<forall>entering. renderAdmon ra r w source doc node entering =
               bindP (renderAdmonition ra w source doc node entering)
                 (\<lambda>res. Inr (r\<lparr>LevelMap := Some m\<rparr>, res))))"
proof (intro conjI impI allI)
  assume a: "Level m node = 0 \<and> qt \<noteq> NoneBQ"
  with assms renderAdmon_macro [of r doc node m source qt ra w True]
  show "renderAdmon ra r w source doc node True =
              (case Write w (''<ac:structured-macro ac:name=\"'' @ BlockQuoteType_String qt
                       @ ''\"><ac:parameter ac:name=\"icon\">true</ac:parameter><ac:rich-text-body>''
                       @ [CHR 0x0A]) of
                 (w', Some err) \<Rightarrow> Inr (r\<lparr>LevelMap := Some m\<rparr>, w', WalkStop, Some err)
               | (w', None) \<Rightarrow> Inr (r\<lparr>LevelMap := Some m\<rparr>, w', WalkContinue, None))"
    by (simp add: macroPrefix_def)
  from a assms renderAdmon_macro [of r doc node m source qt ra w False]
  show "renderAdmon ra r w source doc node False =
              (case Write w (''</ac:rich-text-body></ac:structured-macro>'' @ [CHR 0x0A]) of
                 (w', Some err) \<Rightarrow> Inr (r\<lparr>LevelMap := Some m\<rparr>, w', WalkStop, Some err)
               | (w', None) \<Rightarrow> Inr (r\<lparr>LevelMap := Some m\<rparr>, w', WalkContinue, None))"
    by (simp add: macroSuffix_def)
next
  fix bs assume "snd (Write w bs) = None"
  then show "written (fst (Write w bs)) = written w @ bs" by (rule Write_accepted)
next
  fix entering
  assume "0 < Level m node \<or> qt = NoneBQ"
  then have "Level m node \<noteq> 0 \<or> qt = NoneBQ" by auto
  with assms show "renderAdmon ra r w source doc node entering =
               bindP (renderAdmonition ra w source doc node entering)
                 (\<lambda>res. Inr (r\<lparr>LevelMap := Some m\<rparr>, res))"
    by (rule renderAdmon_plain)
qed

theorem renderAdmon_emission_witness:
  "initLevelMap \<lparr>LevelMap = Some Map.empty\<rparr>
      (Node (OtherNode KindDocument)
         [Node (Admonition None) [Node (OtherNode KindParagraph) [Node (Text \<lparr>Start = 0, Stop = 4, Padding = 0\<rparr>) []]]])
      [0] = Inr Map.empty
   \<and> ParseBlockQuoteType
      (Node (OtherNode KindDocument)
         [Node (Admonition None) [Node (OtherNode KindParagraph) [Node (Text \<lparr>Start = 0, Stop = 4, Padding = 0\<rparr>) []]]])
      [0] ''note'' = Inr Note
   \<and> Level Map.empty [0] = 0 \<and> Note \<noteq> NoneBQ
   \<and> renderAdmon (\<lambda>w as. w) \<lparr>LevelMap = Some Map.empty\<rparr> \<lparr>written = [], failures = []\<rparr> ''note''
      (Node (OtherNode KindDocument)
         [Node (Admonition None) [Node (OtherNode KindParagraph) [Node (Text \<lparr>Start = 0, Stop = 4, Padding = 0\<rparr>) []]]])
      [0] True
     = Inr (\<lparr>LevelMap = Some Map.empty\<rparr>,
            \<lparr>written = ''<ac:structured-macro ac:name=\"note\"><ac:parameter ac:name=\"icon\">true</ac:parameter><ac:rich-text-body>'' @ [CHR 0x0A],
             failures = []\<rparr>, WalkContinue, None)
   \<and> renderAdmon (\<lambda>w as. w) \<lparr>LevelMap = Some Map.empty\<rparr> \<lparr>written = [], failures = []\<rparr> ''note''
      (Node (OtherNode KindDocument)
         [Node (Admonition None) [Node (OtherNode KindParagraph) [Node (Text \<lparr>Start = 0, Stop = 4, Padding = 0\<rparr>) []]]])
      [0] False
     = Inr (\<lparr>LevelMap = Some Map.empty\<rparr>,
            \<lparr>written = ''</ac:rich-text-body></ac:structured-macro>'' @ [CHR 0x0A],
             failures = []\<rparr>, WalkContinue, None)
   \<and> 0 < Level [[0] \<mapsto> 1] [0]
   \<and> renderAdmon (\<lambda>w as. w) \<lparr>LevelMap = Some [[0] \<mapsto> 1]\<rparr> \<lparr>written = [], failures = []\<rparr> ''note''
      (Node (OtherNode KindDocument)
         [Node (Admonition None) [Node (OtherNode KindParagraph) [Node (Text \<lparr>Start = 0, Stop = 4, Padding = 0\<rparr>) []]]])
      [0] True
     = Inr (\<lparr>LevelMap = Some [[0] \<mapsto> 1]\<rparr>,
            \<lparr>written = ''<blockquote>'' @ [CHR 0x0A], failures = []\<rparr>, WalkContinue, None)"
proof -
  let ?doc = "Node (OtherNode KindDocument)
         [Node (Admonition None) [Node (OtherNode KindParagraph) [Node (Text \<lparr>Start = 0, Stop = 4, Padding = 0\<rparr>) []]]]"
  let ?w = "\<lparr>written = [], failures = []\<rparr>"
  have i0: "initLevelMap \<lparr>LevelMap = Some Map.empty\<rparr> ?doc [0] = Inr Map.empty"
    by (simp add: initLevelMap_def)
  have i1: "initLevelMap \<lparr>LevelMap = Some [[0] \<mapsto> 1]\<rparr> ?doc [0] = Inr [[0] \<mapsto> 1]"
    by (simp add: initLevelMap_def)
  have p: "ParseBlockQuoteType ?doc [0] ''note'' = Inr Note" by code_simp
  have l0: "Level Map.empty [0] = 0" by (simp add: Level_def)
  have l1: "0 < Level [[0] \<mapsto> 1] [0]" by (simp add: Level_def)
  have pl: "renderAdmonition (\<lambda>w as. w) ?w ''note'' ?doc [0] True
      = Inr (\<lparr>written = ''<blockquote>'' @ [CHR 0x0A], failures = []\<rparr>, WalkContinue, None)"
    by (simp add: renderAdmonition_def bindP_def asAdmonition_def WriteString_def Write_def)
  from renderAdmon_emission [OF i0 p, of "\<lambda>w as. w" ?w] l0
  have a: "renderAdmon (\<lambda>w as. w) \<lparr>LevelMap = Some Map.empty\<rparr> ?w ''note'' ?doc [0] True
     = Inr (\<lparr>LevelMap = Some Map.empty\<rparr>,
            \<lparr>written = ''<ac:structured-macro ac:name=\"note\"><ac:parameter ac:name=\"icon\">true</ac:parameter><ac:rich-text-body>'' @ [CHR 0x0A],
             failures = []\<rparr>, WalkContinue, None)"
    and b: "renderAdmon (\<lambda>w as. w) \<lparr>LevelMap = Some Map.empty\<rparr> ?w ''note'' ?doc [0] False
     = Inr (\<lparr>LevelMap = Some Map.empty\<rparr>,
            \<lparr>written = ''</ac:rich-text-body></ac:structured-macro>'' @ [CHR 0x0A],
             failures = []\<rparr>, WalkContinue, None)"
    by (simp_all add: Write_def)
  from renderAdmon_emission [OF i1 p, of "\<lambda>w as. w" ?w] l1 pl
  have c: "renderAdmon (\<lambda>w as. w) \<lparr>LevelMap = Some [[0] \<mapsto> 1]\<rparr> ?w ''note'' ?doc [0] True
     = Inr (\<lparr>LevelMap = Some [[0] \<mapsto> 1]\<rparr>,
            \<lparr>written = ''<blockquote>'' @ [CHR 0x0A], failures = []\<rparr>, WalkContinue, None)"
    by (simp add: bindP_def)
  from i0 p l0 l1 a b c show ?thesis by simp
qed

lemma renderAdmonition_result:
  "renderAdmonition ra w source doc node entering = Inr (w', st, e) \<Longrightarrow> st = WalkContinue \<and> e = None"
  by (auto simp add: renderAdmonition_def bindP_def Let_def split: option.splits sum.splits if_splits)

text \<open>
  The claim C8 as stated fails for the plain block quote: the sink rejects the write of
  the opening tag, and \<open>renderAdmonition\<close>, also when reached through \<open>renderAdmon\<close>,
  returns \<open>WalkContinue\<close> and no error.
\<close>

theorem plain_quote_write_failure_counterexample:
  "snd (WriteString \<lparr>written = [], failures = [Rejected 0]\<rparr> (''<blockquote>'' @ [CHR 0x0A])) = Some WriteError
   \<and> renderAdmonition (\<lambda>w as. w) \<lparr>written = [], failures = [Rejected 0]\<rparr> []
        (Node (Admonition None) []) [] True
      = Inr (\<lparr>written = [], failures = []\<rparr>, WalkContinue, None)
   \<and> renderAdmon (\<lambda>w as. w) \<lparr>LevelMap = None\<rparr> \<lparr>written = [], failures = [Rejected 0]\<rparr> []
        (Node (Admonition None) []) [] True
      = Inr (\<lparr>LevelMap = Some Map.empty\<rparr>, \<lparr>written = [], failures = []\<rparr>, WalkContinue, None)"
  apply (intro conjI)
    apply (simp add: WriteString_def Write_def)
   apply (simp add: renderAdmonition_def bindP_def asAdmonition_def WriteString_def Write_def)
  apply (simp add: renderAdmon_def initLevelMap_def GenerateBlockQuoteLevel_def Walk_def
      levelWalker_def parseWalker_def ParseBlockQuoteType_def Kind_def Level_def Let_def
      renderAdmonition_def bindP_def asAdmonition_def WriteString_def Write_def Parent_def
      rootNode.simps)
  done

text \<open>
  Claim C8, amended. For the writes of the structured macro in \<open>renderAdmon\<close> (depth 0,
  type not \<open>None\<close>), a write that the sink ends with an error ends the emission of the
  node: the call returns \<open>WalkStop\<close> with the error of the sink. The plain block quote
  writes of \<open>renderAdmonition\<close> discard the result of every write: whenever
  \<open>renderAdmonition\<close> returns, it returns \<open>WalkContinue\<close> and no error.
\<close>

theorem write_failure_handling:
  assumes "initLevelMap r doc node = Inr m" and "ParseBlockQuoteType doc node source = Inr qt"
  shows "(Level m node = 0 \<and> qt \<noteq> NoneBQ
            \<and> snd (Write writer (if entering then macroPrefix qt else macroSuffix)) = Some err
          \<longrightarrow> (\<exists>w'. renderAdmon ra r writer source doc node entering
                       = Inr (r\<lparr>LevelMap := Some m\<rparr>, w', WalkStop, Some err)))
       \<and> (\<forall>w w' st e. renderAdmonition ra w source doc node entering = Inr (w', st, e)
            \<longrightarrow> st = WalkContinue \<and> e = None)"
proof (intro conjI impI allI)
  assume a: "Level m node = 0 \<and> qt \<noteq> NoneBQ
            \<and> snd (Write writer (if entering then macroPrefix qt else macroSuffix)) = Some err"
  let ?bs = "if entering then macroPrefix qt else macroSuffix"
  from a assms have "renderAdmon ra r writer source doc node entering =
           (case Write writer ?bs of
              (w', Some err) \<Rightarrow> Inr (r\<lparr>LevelMap := Some m\<rparr>, w', WalkStop, Some err)
            | (w', None) \<Rightarrow> Inr (r\<lparr>LevelMap := Some m\<rparr>, w', WalkContinue, None))"
    by (simp add: renderAdmon_macro)
  with a have "renderAdmon ra r writer source doc node entering
       = Inr (r\<lparr>LevelMap := Some m\<rparr>, fst (Write writer ?bs), WalkStop, Some err)"
    by (cases "Write writer ?bs") auto
  then show "\<exists>w'. renderAdmon ra r writer source doc node entering
                       = Inr (r\<lparr>LevelMap := Some m\<rparr>, w', WalkStop, Some err)"
    by blast
next
  fix w w' st e
  assume "renderAdmonition ra w source doc node entering = Inr (w', st, e)"
  then show "st = WalkContinue" "e = None" using renderAdmonition_result by blast+
qed

theorem write_failure_handling_witness:
  "initLevelMap \<lparr>LevelMap = Some Map.empty\<rparr>
      (Node (Admonition None) [Node (OtherNode KindParagraph) [Node (Text \<lparr>Start = 0, Stop = 3, Padding = 0\<rparr>) []]])
      [] = Inr Map.empty
   \<and> ParseBlockQuoteType
      (Node (Admonition None) [Node (OtherNode KindParagraph) [Node (Text \<lparr>Start = 0, Stop = 3, Padding = 0\<rparr>) []]])
      [] ''Tip'' = Inr Tip
   \<and> Level Map.empty [] = 0 \<and> Tip \<noteq> NoneBQ
   \<and> snd (Write \<lparr>written = ''<p>'', failures = [Rejected 10]\<rparr> (if True then macroPrefix Tip else macroSuffix)) = Some WriteError
   \<and> (\<exists>w'. renderAdmon (\<lambda>w as. w) \<lparr>LevelMap = Some Map.empty\<rparr> \<lparr>written = ''<p>'', failures = [Rejected 10]\<rparr> ''Tip''
        (Node (Admonition None) [Node (OtherNode KindParagraph) [Node (Text \<lparr>Start = 0, Stop = 3, Padding = 0\<rparr>) []]])
        [] True
       = Inr (\<lparr>LevelMap = Some Map.empty\<rparr>, w', WalkStop, Some WriteError))
   \<and> renderAdmonition (\<lambda>w as. w) \<lparr>written = [], failures = [Rejected 0]\<rparr> ''Tip''
        (Node (Admonition None) [Node (OtherNode KindParagraph) [Node (Text \<lparr>Start = 0, Stop = 3, Padding = 0\<rparr>) []]])
        [] True
       = Inr (\<lparr>written = [], failures = []\<rparr>, WalkContinue, None)"
proof -
  let ?doc = "Node (Admonition None) [Node (OtherNode KindParagraph) [Node (Text \<lparr>Start = 0, Stop = 3, Padding = 0\<rparr>) []]]"
  let ?w = "\<lparr>written = ''<p>'', failures = [Rejected 10]\<rparr>"
  have i: "initLevelMap \<lparr>LevelMap = Some Map.empty\<rparr> ?doc [] = Inr Map.empty"
    by (simp add: initLevelMap_def)
  have p: "ParseBlockQuoteType ?doc [] ''Tip'' = Inr Tip" by code_simp
  have l: "Level Map.empty [] = 0" by (simp add: Level_def)
  have f: "snd (Write ?w (if True then macroPrefix Tip else macroSuffix)) = Some WriteError"
    by (simp add: Write_def)
  have pl: "renderAdmonition (\<lambda>w as. w) \<lparr>written = [], failures = [Rejected 0]\<rparr> ''Tip'' ?doc [] True
       = Inr (\<lparr>written = [], failures = []\<rparr>, WalkContinue, None)"
    by (simp add: renderAdmonition_def bindP_def asAdmonition_def WriteString_def Write_def)
  note inst = write_failure_handling [OF i p, where entering = True and writer = ?w
      and err = WriteError and ra = "\<lambda>w as. w"]
  from inst l f have a: "\<exists>w'. renderAdmon (\<lambda>w as. w) \<lparr>LevelMap = Some Map.empty\<rparr> ?w ''Tip'' ?doc [] True
       = Inr (\<lparr>LevelMap = Some Map.empty\<rparr>, w', WalkStop, Some WriteError)"
    by simp
  from i p l f a pl show ?thesis by simp
qed

section \<open>Properties of the level map\<close>

lemma subtree_append:
  "subtree n (p @ q) = (case subtree n p of None \<Rightarrow> None | Some x \<Rightarrow> subtree x q)"
  by (induction p arbitrary: n) auto

lemma subtree_snoc:
  "subtree doc p = Some nd \<Longrightarrow> i < length (children nd) \<Longrightarrow> subtree doc (p @ [i]) = Some (children nd ! i)"
  by (simp add: subtree_append)

lemma drop_eq_Cons:
  assumes "drop i xs = c # cs"
  shows "i < length xs" and "xs ! i = c" and "drop (Suc i) xs = cs"
proof -
  from assms show i: "i < length xs"
    by (metis drop_all leI list.distinct(1))
  from Cons_nth_drop_Suc [OF i] assms show "xs ! i = c" and "drop (Suc i) xs = cs"
    by simp_all
qed

lemma rootNode_Nil: "rootNode p = []"
proof (induction p rule: rootNode.induct)
  case (1 p)
  show ?case
  proof (cases "p = []")
    case True
    then show ?thesis by (subst rootNode.simps) (simp add: Parent_def)
  next
    case False
    then have "Parent p = Some (butlast p)" by (simp add: Parent_def)
    with 1 show ?thesis by (subst rootNode.simps) simp
  qed
qed

lemma levelWalker_step:
  "subtree doc p = Some nd \<Longrightarrow>
   levelWalker doc p entering (lvl, m) =
     Inr ((if Kind nd = KindBlockquote then (if entering then (lvl + 1, m(p \<mapsto> lvl)) else (lvl - 1, m)) else (lvl, m)),
          WalkContinue)"
  by (simp add: levelWalker_def Let_def)

lemma walk_levels_list:
  assumes IH: "\<And>c p lvl m. c \<in> set cs \<Longrightarrow> subtree doc p = Some c \<Longrightarrow>
          walkHelper (levelWalker doc) c p (lvl, m) = Inr ((lvl, levelsNode c p lvl m), WalkContinue)"
    and "subtree doc p = Some pn" and "drop i (children pn) = cs"
  shows "walkChildren (levelWalker doc) cs p i (lvl, m) = Inr ((lvl, levelsList cs p i lvl m), WalkContinue)"
  using assms
proof (induction cs arbitrary: i m)
  case Nil
  then show ?case by simp
next
  case (Cons c cs)
  from Cons.prems(3) have i: "i < length (children pn)" and c: "children pn ! i = c"
    and rest: "drop (Suc i) (children pn) = cs"
    by (rule drop_eq_Cons)+
  from Cons.prems(2) i c have sc: "subtree doc (p @ [i]) = Some c" by (simp add: subtree_snoc)
  have h: "walkHelper (levelWalker doc) c (p @ [i]) (lvl, m)
      = Inr ((lvl, levelsNode c (p @ [i]) lvl m), WalkContinue)"
    using Cons.prems(1) sc by simp
  have "walkChildren (levelWalker doc) cs p (Suc i) (lvl, levelsNode c (p @ [i]) lvl m)
      = Inr ((lvl, levelsList cs p (Suc i) lvl (levelsNode c (p @ [i]) lvl m)), WalkContinue)"
    using Cons.IH [OF _ Cons.prems(2) rest] Cons.prems(1) by simp
  with h show ?case by simp
qed

lemma walk_levels:
  "subtree doc p = Some n \<Longrightarrow>
   walkHelper (levelWalker doc) n p (lvl, m) = Inr ((lvl, levelsNode n p lvl m), WalkContinue)"
proof (induction n arbitrary: p lvl m)
  case (Node x cs)
  have ch: "drop 0 (children (Node x cs)) = cs" by simp
  have k: "Kind (Node x cs) = implKind x" by (simp add: Kind_def)
  note L = walk_levels_list [where doc = doc and cs = cs and p = p and pn = "Node x cs" and i = 0,
      OF Node.IH Node.prems ch]
  show ?case
  proof (cases "implKind x = KindBlockquote")
    case True
    then show ?thesis
      using L [of "lvl + 1" "m(p \<mapsto> lvl)"] Node.prems
      by (simp add: levelWalker_step k)
  next
    case False
    then show ?thesis
      using L [of lvl m] Node.prems
      by (simp add: levelWalker_step k)
  qed
qed

lemma levelsList_outside:
  assumes ok: "\<And>c. c \<in> set cs \<Longrightarrow> levelsNode_ok c"
    and out: "\<And>j r. q = p @ j # r \<Longrightarrow> j < i \<or> i + length cs \<le> j"
  shows "levelsList cs p i lvl m q = m q"
  using assms
proof (induction cs arbitrary: i m)
  case Nil
  then show ?case by simp
next
  case (Cons c cs)
  let ?m' = "levelsNode c (p @ [i]) lvl m"
  have "levelsList cs p (Suc i) lvl ?m' q = ?m' q"
  proof (rule Cons.IH)
    fix c' assume "c' \<in> set cs" then show "levelsNode_ok c'" using Cons.prems(1) by simp
  next
    fix j r assume "q = p @ j # r"
    from Cons.prems(2) [OF this] show "j < Suc i \<or> Suc i + length cs \<le> j" by auto
  qed
  moreover have "?m' q = m q"
  proof -
    have "\<forall>r. q \<noteq> (p @ [i]) @ r"
    proof (intro allI notI)
      fix r assume "q = (p @ [i]) @ r"
      then have "q = p @ i # r" by simp
      from Cons.prems(2) [OF this] show False by simp
    qed
    moreover have "levelsNode_ok c" using Cons.prems(1) by simp
    ultimately show ?thesis unfolding levelsNode_ok_def by blast
  qed
  ultimately show ?case by simp
qed

lemma levelsList_inside:
  assumes ok: "\<And>c. c \<in> set cs \<Longrightarrow> levelsNode_ok c"
    and "i \<le> j" and "j < i + length cs"
  shows "levelsList cs p i lvl m (p @ j # r) = entryAt (cs ! (j - i)) r lvl (m (p @ j # r))"
  using assms
proof (induction cs arbitrary: i m)
  case Nil
  then show ?case by simp
next
  case (Cons c cs)
  let ?m' = "levelsNode c (p @ [i]) lvl m"
  have okc: "levelsNode_ok c" using Cons.prems(1) by simp
  have okcs: "\<And>c'. c' \<in> set cs \<Longrightarrow> levelsNode_ok c'" using Cons.prems(1) by simp
  show ?case
  proof (cases "j = i")
    case True
    have "levelsList cs p (Suc i) lvl ?m' (p @ j # r) = ?m' (p @ j # r)"
    proof (rule levelsList_outside [OF okcs])
      fix j' r' assume "p @ j # r = p @ j' # r'"
      then show "j' < Suc i \<or> Suc i + length cs \<le> j'" using True by simp
    qed simp
    moreover have "?m' ((p @ [i]) @ r) = entryAt c r lvl (m ((p @ [i]) @ r))"
      using okc unfolding levelsNode_ok_def by blast
    ultimately show ?thesis using True by simp
  next
    case False
    with Cons.prems(2,3) have a: "Suc i \<le> j" and b: "j < Suc i + length cs" by simp_all
    have "levelsList cs p (Suc i) lvl ?m' (p @ j # r)
        = entryAt (cs ! (j - Suc i)) r lvl (?m' (p @ j # r))"
      by (rule Cons.IH [OF okcs a b])
    moreover have "?m' (p @ j # r) = m (p @ j # r)"
    proof -
      have "\<forall>r'. p @ j # r \<noteq> (p @ [i]) @ r'" using False by simp
      with okc show ?thesis unfolding levelsNode_ok_def by blast
    qed
    moreover from a have "(c # cs) ! (j - i) = cs ! (j - Suc i)"
      by (metis Suc_diff_Suc Suc_le_lessD nth_Cons_Suc)
    ultimately show ?thesis by simp
  qed
qed

lemma levelsNode_ok: "levelsNode_ok n"
proof (induction n)
  case (Node x cs)
  have ok: "\<And>c. c \<in> set cs \<Longrightarrow> levelsNode_ok c" by (rule Node.IH)
  let ?n = "Node x cs"
  have k: "Kind ?n = implKind x" by (simp add: Kind_def)
  show ?case
    unfolding levelsNode_ok_def
  proof (intro allI conjI impI)
    fix p :: NodeRef and lvl :: int and m :: BlockQuoteLevelMap and r :: NodeRef
    let ?lvl' = "if implKind x = KindBlockquote then lvl + 1 else lvl"
    let ?m0 = "if implKind x = KindBlockquote then m(p \<mapsto> lvl) else m"
    have unf: "levelsNode ?n p lvl m = levelsList cs p 0 ?lvl' ?m0" by simp
    show "levelsNode ?n p lvl m (p @ r) = entryAt ?n r lvl (m (p @ r))"
    proof (cases r)
      case Nil
      have "levelsList cs p 0 ?lvl' ?m0 p = ?m0 p"
        by (rule levelsList_outside [OF ok]) simp_all
      with Nil unf show ?thesis by (simp add: entryAt_def k)
    next
      case (Cons j r')
      have m0: "?m0 (p @ j # r') = m (p @ j # r')" by simp
      show ?thesis
      proof (cases "j < length cs")
        case True
        have "levelsList cs p 0 ?lvl' ?m0 (p @ j # r')
            = entryAt (cs ! (j - 0)) r' ?lvl' (?m0 (p @ j # r'))"
          by (rule levelsList_inside [OF ok]) (use True in simp_all)
        with unf m0 Cons True show ?thesis
          by (simp add: entryAt_def k split: option.splits)
      next
        case False
        have "levelsList cs p 0 ?lvl' ?m0 (p @ j # r') = ?m0 (p @ j # r')"
        proof (rule levelsList_outside [OF ok])
          fix j' r'' assume "p @ j # r' = p @ j' # r''"
          then show "j' < 0 \<or> 0 + length cs \<le> j'" using False by simp
        qed simp
        with unf m0 Cons False show ?thesis by (simp add: entryAt_def)
      qed
    qed
  next
    fix p :: NodeRef and lvl :: int and m :: BlockQuoteLevelMap and q :: NodeRef
    assume nq: "\<forall>r. q \<noteq> p @ r"
    let ?lvl' = "if implKind x = KindBlockquote then lvl + 1 else lvl"
    let ?m0 = "if implKind x = KindBlockquote then m(p \<mapsto> lvl) else m"
    have unf: "levelsNode ?n p lvl m = levelsList cs p 0 ?lvl' ?m0" by simp
    have "levelsList cs p 0 ?lvl' ?m0 q = ?m0 q"
    proof (rule levelsList_outside [OF ok])
      fix j r assume "q = p @ j # r"
      with nq show "j < 0 \<or> 0 + length cs \<le> j" by blast
    qed simp
    moreover from nq have "q \<noteq> p" by (metis append_Nil2)
    ultimately show "levelsNode ?n p lvl m q = m q" using unf by simp
  qed
qed

lemma GenerateBlockQuoteLevel_entries:
  assumes "subtree doc someNode = Some sn"
  shows "GenerateBlockQuoteLevel doc someNode =
     Inr (\<lambda>q. case subtree doc q of
                Some x \<Rightarrow> if Kind x = KindBlockquote then Some (int (enclosingBlockquotes doc q)) else None
              | None \<Rightarrow> None)"
proof -
  have w: "walkHelper (levelWalker doc) doc [] (0, Map.empty)
      = Inr ((0, levelsNode doc [] 0 Map.empty), WalkContinue)"
    by (rule walk_levels) simp
  have "levelsNode doc [] 0 Map.empty = (\<lambda>q. entryAt doc q 0 None)"
  proof
    fix q
    from levelsNode_ok [of doc] have "levelsNode doc [] 0 Map.empty ([] @ q) = entryAt doc q 0 (Map.empty ([] @ q))"
      unfolding levelsNode_ok_def by blast
    then show "levelsNode doc [] 0 Map.empty q = entryAt doc q 0 None" by simp
  qed
  moreover have "(\<lambda>q. entryAt doc q 0 None) =
      (\<lambda>q. case subtree doc q of
                Some x \<Rightarrow> if Kind x = KindBlockquote then Some (int (enclosingBlockquotes doc q)) else None
              | None \<Rightarrow> None)"
    by (rule ext) (simp add: entryAt_def split: option.splits)
  ultimately have "levelsNode doc [] 0 Map.empty =
      (\<lambda>q. case subtree doc q of
                Some x \<Rightarrow> if Kind x = KindBlockquote then Some (int (enclosingBlockquotes doc q)) else None
              | None \<Rightarrow> None)"
    by simp
  with w assms show ?thesis
    by (simp add: GenerateBlockQuoteLevel_def Walk_def rootNode_Nil bindP_def)
qed

lemma KindAt_Nil: "KindAt n [] = Some (Kind n)"
  by (simp add: KindAt_def)

lemma KindAt_Cons: "i < length (children n) \<Longrightarrow> KindAt n (i # p) = KindAt (children n ! i) p"
  by (simp add: KindAt_def)

lemma enclosing_none:
  "subtree n q = Some x \<Longrightarrow> (\<forall>j<length q. KindAt n (take j q) \<noteq> Some KindBlockquote)
   \<Longrightarrow> enclosingBlockquotes n q = 0"
proof (induction q arbitrary: n)
  case Nil
  then show ?case by simp
next
  case (Cons i r)
  from Cons.prems(1) have i: "i < length (children n)" and s: "subtree (children n ! i) r = Some x"
    by (simp_all split: if_splits)
  from Cons.prems(2) have "KindAt n (take 0 (i # r)) \<noteq> Some KindBlockquote" by blast
  then have k: "Kind n \<noteq> KindBlockquote" by (simp add: KindAt_Nil)
  have "\<forall>j<length r. KindAt (children n ! i) (take j r) \<noteq> Some KindBlockquote"
  proof (intro allI impI)
    fix j assume "j < length r"
    then have "Suc j < length (i # r)" by simp
    with Cons.prems(2) have "KindAt n (take (Suc j) (i # r)) \<noteq> Some KindBlockquote" by blast
    with i show "KindAt (children n ! i) (take j r) \<noteq> Some KindBlockquote"
      by (simp add: KindAt_Cons)
  qed
  with Cons.IH s have "enclosingBlockquotes (children n ! i) r = 0" by blast
  with i k show ?case by simp
qed

lemma enclosing_nearest:
  "subtree n q = Some x \<Longrightarrow> k < length q \<Longrightarrow> KindAt n (take k q) = Some KindBlockquote
   \<Longrightarrow> (\<forall>j. k < j \<and> j < length q \<longrightarrow> KindAt n (take j q) \<noteq> Some KindBlockquote)
   \<Longrightarrow> enclosingBlockquotes n q = enclosingBlockquotes n (take k q) + 1"
proof (induction q arbitrary: n k)
  case Nil
  then show ?case by simp
next
  case (Cons i r)
  from Cons.prems(1) have i: "i < length (children n)" and s: "subtree (children n ! i) r = Some x"
    by (simp_all split: if_splits)
  let ?c = "children n ! i"
  show ?case
  proof (cases k)
    case 0
    with Cons.prems(3) have kn: "Kind n = KindBlockquote" by (simp add: KindAt_Nil)
    have "\<forall>j<length r. KindAt ?c (take j r) \<noteq> Some KindBlockquote"
    proof (intro allI impI)
      fix j assume "j < length r"
      with 0 have "k < Suc j \<and> Suc j < length (i # r)" by simp
      with Cons.prems(4) have "KindAt n (take (Suc j) (i # r)) \<noteq> Some KindBlockquote" by blast
      with i show "KindAt ?c (take j r) \<noteq> Some KindBlockquote" by (simp add: KindAt_Cons)
    qed
    with s have "enclosingBlockquotes ?c r = 0" by (rule enclosing_none)
    with 0 i kn show ?thesis by simp
  next
    case (Suc k')
    with Cons.prems(2) have a: "k' < length r" by simp
    from Suc Cons.prems(3) i have b: "KindAt ?c (take k' r) = Some KindBlockquote"
      by (simp add: KindAt_Cons)
    have c: "\<forall>j. k' < j \<and> j < length r \<longrightarrow> KindAt ?c (take j r) \<noteq> Some KindBlockquote"
    proof (intro allI impI)
      fix j assume "k' < j \<and> j < length r"
      with Suc have "k < Suc j \<and> Suc j < length (i # r)" by simp
      with Cons.prems(4) have "KindAt n (take (Suc j) (i # r)) \<noteq> Some KindBlockquote" by blast
      with i show "KindAt ?c (take j r) \<noteq> Some KindBlockquote" by (simp add: KindAt_Cons)
    qed
    from Cons.IH [OF s a b c] Suc i show ?thesis by simp
  qed
qed

lemma subtree_take:
  "subtree n q = Some x \<Longrightarrow> \<exists>y. subtree n (take k q) = Some y"
proof (induction q arbitrary: n k)
  case Nil
  then show ?case by simp
next
  case (Cons i r)
  then show ?case by (cases k) (auto split: if_splits)
qed

text \<open>
  Claim C2. For every document tree and every starting node in it, \<open>GenerateBlockQuoteLevel\<close>
  returns a level map (the walk up the parent links ends at the root, and the walk of the
  tree ends). In that map every node of the kind Blockquote has an entry: the number of
  block quotes that enclose it. A block quote that no block quote encloses has depth 0,
  and a block quote inside another has the depth of the nearest enclosing block quote
  plus 1. \<open>Level\<close> is 0 for any node without an entry.
\<close>

theorem GenerateBlockQuoteLevel_depths:
  assumes "subtree doc someNode = Some sn"
  shows "\<exists>m. GenerateBlockQuoteLevel doc someNode = Inr m
     \<and> (\<forall>q. KindAt doc q = Some KindBlockquote \<longrightarrow> m q = Some (int (enclosingBlockquotes doc q)))
     \<and> (\<forall>q. KindAt doc q = Some KindBlockquote
             \<and> (\<forall>j<length q. KindAt doc (take j q) \<noteq> Some KindBlockquote)
           \<longrightarrow> m q = Some 0)
     \<and> (\<forall>q k. KindAt doc q = Some KindBlockquote
             \<and> k < length q \<and> KindAt doc (take k q) = Some KindBlockquote
             \<and> (\<forall>j. k < j \<and> j < length q \<longrightarrow> KindAt doc (take j q) \<noteq> Some KindBlockquote)
           \<longrightarrow> (\<exists>d. m (take k q) = Some d \<and> m q = Some (d + 1)))
     \<and> (\<forall>q. m q = None \<longrightarrow> Level m q = 0)"
proof -
  let ?m = "\<lambda>q. case subtree doc q of
                Some x \<Rightarrow> if Kind x = KindBlockquote then Some (int (enclosingBlockquotes doc q)) else None
              | None \<Rightarrow> None"
  have g: "GenerateBlockQuoteLevel doc someNode = Inr ?m"
    using assms by (rule GenerateBlockQuoteLevel_entries)
  have e: "?m q = Some (int (enclosingBlockquotes doc q))" if "KindAt doc q = Some KindBlockquote" for q
    using that by (auto simp: KindAt_def split: option.splits)
  have t: "?m q = Some 0"
    if "KindAt doc q = Some KindBlockquote \<and> (\<forall>j<length q. KindAt doc (take j q) \<noteq> Some KindBlockquote)" for q
  proof -
    from that obtain x where "subtree doc q = Some x" by (auto simp: KindAt_def)
    with that have "enclosingBlockquotes doc q = 0" using enclosing_none by blast
    with e that show ?thesis by simp
  qed
  have n: "\<exists>d. ?m (take k q) = Some d \<and> ?m q = Some (d + 1)"
    if "KindAt doc q = Some KindBlockquote
             \<and> k < length q \<and> KindAt doc (take k q) = Some KindBlockquote
             \<and> (\<forall>j. k < j \<and> j < length q \<longrightarrow> KindAt doc (take j q) \<noteq> Some KindBlockquote)" for q k
  proof -
    from that obtain x where "subtree doc q = Some x" by (auto simp: KindAt_def)
    with that have "enclosingBlockquotes doc q = enclosingBlockquotes doc (take k q) + 1"
      using enclosing_nearest by blast
    moreover from that have "?m (take k q) = Some (int (enclosingBlockquotes doc (take k q)))"
      using e by blast
    moreover from that have "?m q = Some (int (enclosingBlockquotes doc q))" using e by blast
    ultimately show ?thesis by simp
  qed
  have l: "Level ?m q = 0" if "?m q = None" for q
    using that by (simp add: Level_def)
  from g e t n l show ?thesis by blast
qed

theorem GenerateBlockQuoteLevel_depths_witness:
  "subtree (Node (OtherNode KindDocument)
       [Node (OtherNode KindBlockquote)
          [Node (OtherNode KindParagraph) [], Node (OtherNode KindBlockquote) []]]) [0, 0]
     = Some (Node (OtherNode KindParagraph) [])
   \<and> (\<exists>m. GenerateBlockQuoteLevel (Node (OtherNode KindDocument)
       [Node (OtherNode KindBlockquote)
          [Node (OtherNode KindParagraph) [], Node (OtherNode KindBlockquote) []]]) [0, 0] = Inr m
        \<and> m [0] = Some 0 \<and> m [0, 1] = Some 1)"
proof -
  let ?doc = "Node (OtherNode KindDocument)
       [Node (OtherNode KindBlockquote)
          [Node (OtherNode KindParagraph) [], Node (OtherNode KindBlockquote) []]]"
  have s: "subtree ?doc [0, 0] = Some (Node (OtherNode KindParagraph) [])" by simp
  have k0: "KindAt ?doc [0] = Some KindBlockquote" by (simp add: KindAt_def Kind_def)
  have k1: "KindAt ?doc [0, 1] = Some KindBlockquote" by (simp add: KindAt_def Kind_def)
  have top: "\<forall>j<length [0::nat]. KindAt ?doc (take j [0]) \<noteq> Some KindBlockquote"
    by (simp add: KindAt_def Kind_def)
  have near: "(1::nat) < length [0::nat, 1] \<and> KindAt ?doc (take 1 [0, 1]) = Some KindBlockquote
      \<and> (\<forall>j. 1 < j \<and> j < length [0::nat, 1] \<longrightarrow> KindAt ?doc (take j [0, 1]) \<noteq> Some KindBlockquote)"
    by (simp add: KindAt_def Kind_def)
  from GenerateBlockQuoteLevel_depths [OF s] obtain m where
    g: "GenerateBlockQuoteLevel ?doc [0, 0] = Inr m"
    and t: "\<forall>q. KindAt ?doc q = Some KindBlockquote
             \<and> (\<forall>j<length q. KindAt ?doc (take j q) \<noteq> Some KindBlockquote)
           \<longrightarrow> m q = Some 0"
    and n: "\<forall>q k. KindAt ?doc q = Some KindBlockquote
             \<and> k < length q \<and> KindAt ?doc (take k q) = Some KindBlockquote
             \<and> (\<forall>j. k < j \<and> j < length q \<longrightarrow> KindAt ?doc (take j q) \<noteq> Some KindBlockquote)
           \<longrightarrow> (\<exists>d. m (take k q) = Some d \<and> m q = Some (d + 1))"
    by blast
  from t k0 top have m0: "m [0] = Some 0" by blast
  from n k1 near have "\<exists>d. m (take 1 [0, 1]) = Some d \<and> m [0, 1] = Some (d + 1)" by blast
  with m0 have m1: "m [0, 1] = Some 1" by simp
  from s g m0 m1 show ?thesis by blast
qed

text \<open>
  Claim C10. \<open>GenerateBlockQuoteLevel\<close> gives entries only to nodes of the kind Blockquote:
  a node of any other kind has no entry and \<open>Level\<close> is 0 for it. In particular a node of
  the kind Admonition, for which \<open>renderAdmon\<close> is registered, has level 0 wherever it
  is in the tree, and \<open>renderAdmon\<close>, building the level map on its first call, takes
  the branch of the structured macro for it when its type is not \<open>None\<close>.
\<close>

theorem no_level_for_other_kinds:
  assumes "subtree doc node = Some nd"
  shows "\<exists>m. GenerateBlockQuoteLevel doc node = Inr m
     \<and> (\<forall>q. KindAt doc q \<noteq> Some KindBlockquote \<longrightarrow> m q = None \<and> Level m q = 0)
     \<and> (Kind nd = KindAdmonition \<longrightarrow>
          Level m node = 0
          \<and> (LevelMap r = None \<and> ParseBlockQuoteType doc node source = Inr qt \<and> qt \<noteq> NoneBQ \<longrightarrow>
               renderAdmon ra r w source doc node entering =
                 (case Write w (if entering then macroPrefix qt else macroSuffix) of
                    (w', Some err) \<Rightarrow> Inr (r\<lparr>LevelMap := Some m\<rparr>, w', WalkStop, Some err)
                  | (w', None) \<Rightarrow> Inr (r\<lparr>LevelMap := Some m\<rparr>, w', WalkContinue, None))))"
proof -
  let ?m = "\<lambda>q. case subtree doc q of
                Some x \<Rightarrow> if Kind x = KindBlockquote then Some (int (enclosingBlockquotes doc q)) else None
              | None \<Rightarrow> None"
  have g: "GenerateBlockQuoteLevel doc node = Inr ?m"
    using assms by (rule GenerateBlockQuoteLevel_entries)
  have o: "?m q = None \<and> Level ?m q = 0" if "KindAt doc q \<noteq> Some KindBlockquote" for q
    using that by (auto simp: KindAt_def Level_def split: option.splits)
  have a: "Level ?m node = 0" if "Kind nd = KindAdmonition"
    using that assms by (simp add: Level_def)
  have b: "renderAdmon ra r w source doc node entering =
                 (case Write w (if entering then macroPrefix qt else macroSuffix) of
                    (w', Some err) \<Rightarrow> Inr (r\<lparr>LevelMap := Some ?m\<rparr>, w', WalkStop, Some err)
                  | (w', None) \<Rightarrow> Inr (r\<lparr>LevelMap := Some ?m\<rparr>, w', WalkContinue, None))"
    if "Kind nd = KindAdmonition"
      and "LevelMap r = None \<and> ParseBlockQuoteType doc node source = Inr qt \<and> qt \<noteq> NoneBQ"
  proof (rule renderAdmon_macro)
    from that(2) g show "initLevelMap r doc node = Inr ?m" by (simp add: initLevelMap_def)
    from that(2) show "ParseBlockQuoteType doc node source = Inr qt" by simp
    from a that(1) show "Level ?m node = 0" by simp
    from that(2) show "qt \<noteq> NoneBQ" by simp
  qed
  from g o a b show ?thesis by blast
qed

theorem no_level_for_other_kinds_witness:
  "subtree (Node (OtherNode KindDocument)
       [Node (OtherNode KindBlockquote)
          [Node (Admonition None)
             [Node (OtherNode KindParagraph) [Node (Text \<lparr>Start = 0, Stop = 4, Padding = 0\<rparr>) []]]]]) [0, 0]
     = Some (Node (Admonition None)
             [Node (OtherNode KindParagraph) [Node (Text \<lparr>Start = 0, Stop = 4, Padding = 0\<rparr>) []]])
   \<and> ParseBlockQuoteType (Node (OtherNode KindDocument)
       [Node (OtherNode KindBlockquote)
          [Node (Admonition None)
             [Node (OtherNode KindParagraph) [Node (Text \<lparr>Start = 0, Stop = 4, Padding = 0\<rparr>) []]]]]) [0, 0] ''warn''
     = Inr Warn
   \<and> (\<exists>m. GenerateBlockQuoteLevel (Node (OtherNode KindDocument)
       [Node (OtherNode KindBlockquote)
          [Node (Admonition None)
             [Node (OtherNode KindParagraph) [Node (Text \<lparr>Start = 0, Stop = 4, Padding = 0\<rparr>) []]]]]) [0, 0] = Inr m
        \<and> m [0, 0] = None \<and> Level m [0, 0] = 0
        \<and> renderAdmon (\<lambda>w as. w) \<lparr>LevelMap = None\<rparr> \<lparr>written = [], failures = []\<rparr> ''warn''
            (Node (OtherNode KindDocument)
               [Node (OtherNode KindBlockquote)
                  [Node (Admonition None)
                     [Node (OtherNode KindParagraph) [Node (Text \<lparr>Start = 0, Stop = 4, Padding = 0\<rparr>) []]]]]) [0, 0] False
          = Inr (\<lparr>LevelMap = Some m\<rparr>,
                 \<lparr>written = ''</ac:rich-text-body></ac:structured-macro>'' @ [CHR 0x0A], failures = []\<rparr>,
                 WalkContinue, None))"
proof -
  let ?adm = "Node (Admonition None)
             [Node (OtherNode KindParagraph) [Node (Text \<lparr>Start = 0, Stop = 4, Padding = 0\<rparr>) []]]"
  let ?doc = "Node (OtherNode KindDocument) [Node (OtherNode KindBlockquote) [?adm]]"
  let ?w = "\<lparr>written = [], failures = []\<rparr>"
  have s: "subtree ?doc [0, 0] = Some ?adm" by simp
  have p: "ParseBlockQuoteType ?doc [0, 0] ''warn'' = Inr Warn" by code_simp
  have k: "KindAt ?doc [0, 0] \<noteq> Some KindBlockquote" by (simp add: KindAt_def Kind_def)
  have ka: "Kind ?adm = KindAdmonition" by (simp add: Kind_def)
  from no_level_for_other_kinds [OF s, where r = "\<lparr>LevelMap = None\<rparr>" and source = "''warn''"
      and qt = Warn and ra = "\<lambda>w as. w" and w = ?w and entering = False]
  obtain m where g: "GenerateBlockQuoteLevel ?doc [0, 0] = Inr m"
    and o: "\<forall>q. KindAt ?doc q \<noteq> Some KindBlockquote \<longrightarrow> m q = None \<and> Level m q = 0"
    and a: "Kind ?adm = KindAdmonition \<longrightarrow>
          Level m [0, 0] = 0
          \<and> (LevelMap \<lparr>LevelMap = None\<rparr> = None \<and> ParseBlockQuoteType ?doc [0, 0] ''warn'' = Inr Warn \<and> Warn \<noteq> NoneBQ \<longrightarrow>
               renderAdmon (\<lambda>w as. w) \<lparr>LevelMap = None\<rparr> ?w ''warn'' ?doc [0, 0] False =
                 (case Write ?w (if False then macroPrefix Warn else macroSuffix) of
                    (w', Some err) \<Rightarrow> Inr (\<lparr>LevelMap = None\<rparr>\<lparr>LevelMap := Some m\<rparr>, w', WalkStop, Some err)
                  | (w', None) \<Rightarrow> Inr (\<lparr>LevelMap = None\<rparr>\<lparr>LevelMap := Some m\<rparr>, w', WalkContinue, None)))"
    by blast
  from o k have n: "m [0, 0] = None \<and> Level m [0, 0] = 0" by blast
  from a ka p have "renderAdmon (\<lambda>w as. w) \<lparr>LevelMap = None\<rparr> ?w ''warn'' ?doc [0, 0] False
      = Inr (\<lparr>LevelMap = Some m\<rparr>,
                 \<lparr>written = ''</ac:rich-text-body></ac:structured-macro>'' @ [CHR 0x0A], failures = []\<rparr>,
                 WalkContinue, None)"
    by (simp add: Write_def macroSuffix_def)
  with s p g n show ?thesis by blast
qed

section \<open>Properties of the walk of ParseBlockQuoteType\<close>

lemma walk_invariant:
  assumes step: "\<And>p e s s' st. J s \<Longrightarrow> f p e s = Inr (s', st) \<Longrightarrow> (if st = WalkStop then K s' else J s')"
  shows "J s \<Longrightarrow> walkHelper f n p s = Inr (s', st) \<Longrightarrow> (if st = WalkStop then K s' else J s')"
    and "J s \<Longrightarrow> walkChildren f cs p i s = Inr (s', st) \<Longrightarrow> (if st = WalkStop then K s' else J s')"
  using step
proof (induction f n p s and f cs p i s arbitrary: s' st and s' st rule: walkHelper_walkChildren.induct)
  case (1 walker x cs p s)
  note stp = "1.prems"(3)
  from "1.prems"(2) obtain s1 st1 where w1: "walker p True s = Inr (s1, st1)"
    by (auto split: sum.splits)
  from stp [OF "1.prems"(1) w1] have j1: "if st1 = WalkStop then K s1 else J s1" .
  show ?case
  proof (cases "st1 = WalkStop")
    case True
    with w1 "1.prems"(2) j1 show ?thesis by simp
  next
    case False
    let ?mid = "if st1 \<noteq> WalkSkipChildren then walkChildren walker cs p 0 s1 else Inr (s1, WalkContinue)"
    from "1.prems"(2) w1 False obtain s2 st2 where m: "?mid = Inr (s2, st2)"
      by (auto split: sum.splits if_splits)
    have j2: "if st2 = WalkStop then K s2 else J s2"
    proof (cases "st1 = WalkSkipChildren")
      case True
      with m j1 False show ?thesis by auto
    next
      case skip: False
      with m have c: "walkChildren walker cs p 0 s1 = Inr (s2, st2)" by simp
      from j1 False have "J s1" by simp
      from "1.IH" [OF w1 refl False skip this c stp] show ?thesis by simp
    qed
    show ?thesis
    proof (cases "st2 = WalkStop")
      case True
      with "1.prems"(2) w1 False m j2 show ?thesis by (auto split: if_splits)
    next
      case c2: False
      with "1.prems"(2) w1 False m obtain s3 st3 where w3: "walker p False s2 = Inr (s3, st3)"
        and r: "s' = s3" "st = (if st3 = WalkStop then WalkStop else WalkContinue)"
        by (auto split: sum.splits if_splits)
      from j2 c2 have "J s2" by simp
      from stp [OF this w3] r show ?thesis by (auto split: if_splits)
    qed
  qed
next
  case (2 walker p i s)
  then show ?case by simp
next
  case (3 walker c cs p i s)
  note stp = "3.prems"(3)
  from "3.prems"(2) obtain s1 st1 where w1: "walkHelper walker c (p @ [i]) s = Inr (s1, st1)"
    by (auto split: sum.splits)
  from "3.IH"(1) [OF "3.prems"(1) w1 stp] have j1: "if st1 = WalkStop then K s1 else J s1" .
  show ?case
  proof (cases "st1 = WalkStop")
    case True
    with w1 "3.prems"(2) j1 show ?thesis by simp
  next
    case False
    with w1 "3.prems"(2) have c: "walkChildren walker cs p (Suc i) s1 = Inr (s', st)" by simp
    from j1 False have "J s1" by simp
    from "3.IH"(2) [OF w1 refl False this c stp] show ?thesis by simp
  qed
qed

lemma eraseTrace_simps [simp]:
  "eraseTrace (Inl e) = Inl e"
  "eraseTrace (Inr ((s, l), st)) = Inr (s, st)"
  by (simp_all add: eraseTrace_def)

lemma traced_erase_step: "eraseTrace (traced f p e sl) = f p e (fst sl)"
  by (cases "f p e (fst sl)") (auto simp: traced_def eraseTrace_def)

lemma traced_erase_children:
  assumes IH: "\<And>c p sl. c \<in> set cs \<Longrightarrow> eraseTrace (walkHelper (traced f) c p sl) = walkHelper f c p (fst sl)"
  shows "eraseTrace (walkChildren (traced f) cs p i sl) = walkChildren f cs p i (fst sl)"
  using assms
proof (induction cs arbitrary: i sl)
  case Nil
  then show ?case by (cases sl) simp
next
  case (Cons c cs)
  have h: "eraseTrace (walkHelper (traced f) c (p @ [i]) sl) = walkHelper f c (p @ [i]) (fst sl)"
    using Cons.prems by simp
  show ?case
  proof (cases "walkHelper (traced f) c (p @ [i]) sl")
    case (Inl e)
    with h have "walkHelper f c (p @ [i]) (fst sl) = Inl e" by simp
    with Inl show ?thesis by simp
  next
    case (Inr r)
    obtain s1 l1 st1 where r: "r = ((s1, l1), st1)" by (metis prod.exhaust)
    with Inr h have w: "walkHelper f c (p @ [i]) (fst sl) = Inr (s1, st1)" by simp
    have "eraseTrace (walkChildren (traced f) cs p (Suc i) (s1, l1)) = walkChildren f cs p (Suc i) s1"
      using Cons.IH [of "Suc i" "(s1, l1)"] Cons.prems by simp
    with Inr r w show ?thesis by simp
  qed
qed

lemma traced_erase:
  "eraseTrace (walkHelper (traced f) n p sl) = walkHelper f n p (fst sl)"
proof (induction n arbitrary: p sl)
  case (Node x cs)
  have ch: "\<And>i sl. eraseTrace (walkChildren (traced f) cs p i sl) = walkChildren f cs p i (fst sl)"
    by (rule traced_erase_children) (rule Node.IH)
  have t1: "eraseTrace (traced f p True sl) = f p True (fst sl)" by (rule traced_erase_step)
  show ?case
  proof (cases "traced f p True sl")
    case (Inl e)
    with t1 have "f p True (fst sl) = Inl e" by simp
    with Inl show ?thesis by simp
  next
    case (Inr r)
    obtain s1 l1 st1 where r: "r = ((s1, l1), st1)" by (metis prod.exhaust)
    with Inr t1 have w1: "f p True (fst sl) = Inr (s1, st1)" by simp
    show ?thesis
    proof (cases "st1 = WalkStop")
      case True
      with Inr r w1 show ?thesis by simp
    next
      case False
      let ?midT = "if st1 \<noteq> WalkSkipChildren then walkChildren (traced f) cs p 0 (s1, l1)
                   else Inr ((s1, l1), WalkContinue)"
      let ?mid = "if st1 \<noteq> WalkSkipChildren then walkChildren f cs p 0 s1 else Inr (s1, WalkContinue)"
      have m: "eraseTrace ?midT = ?mid" using ch [of 0 "(s1, l1)"] by simp
      show ?thesis
      proof (cases ?midT)
        case (Inl e)
        with m have "?mid = Inl e" by simp
        with Inl Inr r w1 False show ?thesis by simp
      next
        case (Inr r2)
        obtain s2 l2 st2 where r2: "r2 = ((s2, l2), st2)" by (metis prod.exhaust)
        with Inr m have m2: "?mid = Inr (s2, st2)" by simp
        show ?thesis
        proof (cases "st2 = WalkStop")
          case True
          with Inr r2 m2 \<open>traced f p True sl = Inr r\<close> r w1 False show ?thesis by simp
        next
          case c2: False
          have t3: "eraseTrace (traced f p False (s2, l2)) = f p False s2"
            using traced_erase_step [of f p False "(s2, l2)"] by simp
          show ?thesis
          proof (cases "traced f p False (s2, l2)")
            case (Inl e)
            with t3 have "f p False s2 = Inl e" by simp
            with Inl Inr r2 m2 \<open>traced f p True sl = Inr r\<close> r w1 False c2 show ?thesis by simp
          next
            case (Inr r3)
            obtain s3 l3 st3 where r3: "r3 = ((s3, l3), st3)" by (metis prod.exhaust)
            with Inr t3 have "f p False s2 = Inr (s3, st3)" by simp
            with Inr r3 \<open>?midT = Inr r2\<close> r2 m2 \<open>traced f p True sl = Inr r\<close> r w1 False c2
            show ?thesis by simp
          qed
        qed
      qed
    qed
  qed
qed

lemma parseTrace_erase:
  "ParseBlockQuoteType doc node source =
     (case parseTrace doc node source of Inl e \<Rightarrow> Inl e | Inr (s, l) \<Rightarrow> Inr (fst s))"
proof (cases "subtree doc node")
  case None
  then show ?thesis by (simp add: ParseBlockQuoteType_def parseTrace_def Walk_def bindP_def)
next
  case (Some n)
  let ?f = "parseWalker doc source"
  have e: "eraseTrace (walkHelper (traced ?f) n node ((NoneBQ, 0), [])) = walkHelper ?f n node (NoneBQ, 0)"
    using traced_erase [of ?f n node "((NoneBQ, 0), [])"] by simp
  show ?thesis
  proof (cases "walkHelper (traced ?f) n node ((NoneBQ, 0), [])")
    case (Inl err)
    with e have "walkHelper ?f n node (NoneBQ, 0) = Inl err" by simp
    with Inl Some show ?thesis
      by (simp add: ParseBlockQuoteType_def parseTrace_def Walk_def bindP_def)
  next
    case (Inr r)
    obtain s l st where r: "r = ((s, l), st)" by (metis prod.exhaust)
    with Inr e have "walkHelper ?f n node (NoneBQ, 0) = Inr (s, st)" by simp
    with Inr r Some show ?thesis
      by (simp add: ParseBlockQuoteType_def parseTrace_def Walk_def bindP_def)
  qed
qed

lemma parseWalker_step:
  assumes "parseWalker doc source q e (t, c) = Inr ((t', c'), st)"
  shows "(st = WalkStop) = (e \<and> 1 < c + (if KindAt doc q = Some KindParagraph then 1 else 0))"
    and "c' = c + (if e \<and> KindAt doc q = Some KindParagraph then 1 else 0)
                + (if e \<and> c < 2 \<and> (KindAt doc q = Some KindText \<or> KindAt doc q = Some KindHTMLBlock)
                   then 1 else 0)"
    and "st = WalkStop \<longrightarrow> t' = t"
    and "1 < c \<longrightarrow> t' = t"
proof -
  from assms obtain nd where nd: "subtree doc q = Some nd"
    by (auto simp: parseWalker_def split: option.splits)
  then have k: "KindAt doc q = Some (Kind nd)" by (simp add: KindAt_def)
  note a = assms [unfolded parseWalker_def, simplified nd option.case Let_def fst_conv snd_conv]
  from a show "(st = WalkStop) = (e \<and> 1 < c + (if KindAt doc q = Some KindParagraph then 1 else 0))"
    unfolding k by (auto simp: bindP_def split: if_splits sum.splits)
  from a show "c' = c + (if e \<and> KindAt doc q = Some KindParagraph then 1 else 0)
                + (if e \<and> c < 2 \<and> (KindAt doc q = Some KindText \<or> KindAt doc q = Some KindHTMLBlock)
                   then 1 else 0)"
    unfolding k by (auto simp: bindP_def split: if_splits sum.splits)
  from a show "st = WalkStop \<longrightarrow> t' = t"
    unfolding k by (auto simp: bindP_def split: if_splits sum.splits)
  from a show "1 < c \<longrightarrow> t' = t"
    unfolding k by (auto simp: bindP_def split: if_splits sum.splits)
qed

lemma parse_step_invariant:
  assumes run: "parseRunning doc source sl"
    and tr: "traced (parseWalker doc source) q e sl = Inr (sl', st)"
  shows "if st = WalkStop then parseHalted doc source sl' else parseRunning doc source sl'"
proof -
  obtain t c log where sl: "sl = ((t, c), log)" by (metis prod.exhaust)
  obtain t' c' log' where sl': "sl' = ((t', c'), log')" by (metis prod.exhaust)
  let ?ev = "\<lparr>evNode = q, evEntering = e, evBefore = (t, c), evAfter = (t', c'), evStatus = st\<rparr>"
  from tr sl sl' have w: "parseWalker doc source q e (t, c) = Inr ((t', c'), st)"
    and log': "log' = log @ [?ev]"
    by (auto simp: traced_def split: sum.splits)
  let ?P = "\<lambda>l. length (filter (paragraphEntry doc) l)"
  let ?I = "\<lambda>l. length (filter (inspects doc) l)"
  let ?para = "KindAt doc q = Some KindParagraph"
  let ?cont = "KindAt doc q = Some KindText \<or> KindAt doc q = Some KindHTMLBlock"
  note stp = parseWalker_step [OF w]
  have pe: "paragraphEntry doc ?ev \<longleftrightarrow> e \<and> ?para" by (simp add: paragraphEntry_def)
  have ins: "inspects doc ?ev \<longleftrightarrow> e \<and> c < 2 \<and> ?cont" by (simp add: inspects_def)
  have P': "?P log' = ?P log + (if e \<and> ?para then 1 else 0)" using log' pe by simp
  have I': "?I log' = ?I log + (if e \<and> c < 2 \<and> ?cont then 1 else 0)" using log' ins by simp
  from run sl have nostop: "\<forall>ev\<in>set log. evStatus ev \<noteq> WalkStop"
    and cnt: "c = int (?P log) + int (?I log)" and P1: "?P log \<le> 1" and c2: "c \<le> 2"
    and ok: "eventsOK doc source log"
    by (simp_all add: parseRunning_def)
  from ok have calls: "\<forall>ev\<in>set log. parseWalker doc source (evNode ev) (evEntering ev) (evBefore ev)
                      = Inr (evAfter ev, evStatus ev)"
    and insp: "\<forall>i<length log. inspects doc (log ! i) \<longrightarrow> ?P (take (Suc i) log) \<le> 1"
    by (simp_all add: eventsOK_def)
  have calls': "\<forall>ev\<in>set log'. parseWalker doc source (evNode ev) (evEntering ev) (evBefore ev)
                      = Inr (evAfter ev, evStatus ev)"
    using calls w log' by simp
  have insp_old: "inspects doc (log' ! i) \<longrightarrow> ?P (take (Suc i) log') \<le> 1" if "i < length log" for i
    using that insp log' by (simp add: nth_append)
  show ?thesis
  proof (cases "st = WalkStop")
    case True
    with stp(1) have e: "e" and big: "1 < c + (if ?para then 1 else 0)" by simp_all
    have noins: "\<not> inspects doc ?ev"
    proof
      assume "inspects doc ?ev"
      with ins have "c < 2" and "?cont" by simp_all
      then have "\<not> ?para" by auto
      with big \<open>c < 2\<close> show False by simp
    qed
    have a: "\<forall>i<length log'. evStatus (log' ! i) = WalkStop \<longrightarrow> Suc i = length log'"
    proof (intro allI impI)
      fix i assume i: "i < length log'" and s: "evStatus (log' ! i) = WalkStop"
      show "Suc i = length log'"
      proof (cases "i < length log")
        case True
        with s log' have "evStatus (log ! i) = WalkStop" by (simp add: nth_append)
        with nostop True show ?thesis by (metis nth_mem)
      next
        case False
        with i log' show ?thesis by simp
      qed
    qed
    have b: "?P log' \<le> 2" using P' P1 by simp
    have c: "?I log' \<le> 2" using I' noins ins cnt c2 by auto
    have d: "\<forall>i<length log'. inspects doc (log' ! i) \<longrightarrow> ?P (take (Suc i) log') \<le> 1"
    proof (intro allI impI)
      fix i assume i: "i < length log'" and s: "inspects doc (log' ! i)"
      show "?P (take (Suc i) log') \<le> 1"
      proof (cases "i < length log")
        case True
        with s insp_old show ?thesis by blast
      next
        case False
        with i log' have "log' ! i = ?ev" by (simp add: nth_append)
        with s noins show ?thesis by simp
      qed
    qed
    from a b c d calls' True sl' show ?thesis by (simp add: parseHalted_def eventsOK_def)
  next
    case False
    with stp(1) have small: "\<not> (e \<and> 1 < c + (if ?para then 1 else 0))" by simp
    have a: "\<forall>ev\<in>set log'. evStatus ev \<noteq> WalkStop" using nostop False log' by simp
    have excl: "\<not> (?para \<and> ?cont)" by auto
    have b: "c' = int (?P log') + int (?I log')"
      using stp(2) P' I' cnt by simp
    have c: "?P log' \<le> 1"
    proof (cases "e \<and> ?para")
      case True
      with small have "c \<le> 0" by simp
      with cnt have "?P log \<le> 0" by linarith
      with P' True show ?thesis by simp
    next
      case False
      with P' P1 show ?thesis by simp
    qed
    have d: "c' \<le> 2" using stp(2) small c2 excl by (auto split: if_splits)
    have f: "\<forall>i<length log'. inspects doc (log' ! i) \<longrightarrow> ?P (take (Suc i) log') \<le> 1"
    proof (intro allI impI)
      fix i assume i: "i < length log'" and s: "inspects doc (log' ! i)"
      show "?P (take (Suc i) log') \<le> 1"
      proof (cases "i < length log")
        case True
        with s insp_old show ?thesis by blast
      next
        case False
        with i log' have "Suc i = length log'" by simp
        then have "take (Suc i) log' = log'" by simp
        with c show ?thesis by simp
      qed
    qed
    from a b c d f calls' False sl' show ?thesis by (simp add: parseRunning_def eventsOK_def)
  qed
qed

lemma parseRunning_init: "parseRunning doc source ((NoneBQ, 0), [])"
  by (simp add: parseRunning_def eventsOK_def)

lemma parseRunning_imp_Halted:
  assumes "parseRunning doc source sl"
  shows "parseHalted doc source sl"
proof -
  let ?P = "length (filter (paragraphEntry doc) (snd sl))"
  let ?I = "length (filter (inspects doc) (snd sl))"
  from assms have nostop: "\<forall>ev\<in>set (snd sl). evStatus ev \<noteq> WalkStop"
    and cnt: "snd (fst sl) = int ?P + int ?I" and P1: "?P \<le> 1" and c2: "snd (fst sl) \<le> 2"
    and ok: "eventsOK doc source (snd sl)"
    by (simp_all add: parseRunning_def)
  from nostop have a: "\<forall>i<length (snd sl). evStatus (snd sl ! i) = WalkStop \<longrightarrow> Suc i = length (snd sl)"
    by (metis nth_mem)
  from P1 have b: "?P \<le> 2" by simp
  from cnt c2 have c: "?I \<le> 2" by linarith
  from a b c ok show ?thesis by (simp add: parseHalted_def)
qed

text \<open>
  Claim C4. Whenever \<open>ParseBlockQuoteType\<close> returns, its walk made the calls \<open>log\<close>, and:
  each call that enters a Paragraph adds 1 to the counter; a call returns \<open>WalkStop\<close>
  exactly when it is an entering call and the counter, after the paragraph step, exceeds
  1; the walk ends with that call; once the counter exceeds 1 no call inspects content or
  changes \<open>t\<close>; every call that inspects content was reached with at most one paragraph
  entered, so within the first two paragraph entries; and the whole walk enters at most
  two paragraphs and inspects at most two nodes.
\<close>

theorem ParseBlockQuoteType_paragraph_bound:
  assumes "ParseBlockQuoteType doc node source = Inr t"
  shows "\<exists>c log. parseTrace doc node source = Inr ((t, c), log)
     \<and> (\<forall>ev\<in>set log. parseWalker doc source (evNode ev) (evEntering ev) (evBefore ev)
                        = Inr (evAfter ev, evStatus ev))
     \<and> (\<forall>ev\<in>set log. paragraphEntry doc ev \<longrightarrow> snd (evAfter ev) = snd (evBefore ev) + 1)
     \<and> (\<forall>ev\<in>set log. evStatus ev = WalkStop \<longleftrightarrow>
            evEntering ev \<and> 1 < snd (evBefore ev) + (if paragraphEntry doc ev then 1 else 0))
     \<and> (\<forall>i<length log. evStatus (log ! i) = WalkStop \<longrightarrow> Suc i = length log)
     \<and> (\<forall>ev\<in>set log. 1 < snd (evBefore ev)
            \<longrightarrow> \<not> inspects doc ev \<and> fst (evAfter ev) = fst (evBefore ev))
     \<and> (\<forall>i<length log. inspects doc (log ! i)
            \<longrightarrow> length (filter (paragraphEntry doc) (take (Suc i) log)) \<le> 1)
     \<and> length (filter (paragraphEntry doc) log) \<le> 2
     \<and> length (filter (inspects doc) log) \<le> 2"
proof -
  from assms parseTrace_erase [of doc node source]
  obtain c log where tr: "parseTrace doc node source = Inr ((t, c), log)"
    by (auto split: sum.splits)
  then obtain n st where n: "subtree doc node = Some n"
    and w: "walkHelper (traced (parseWalker doc source)) n node ((NoneBQ, 0), []) = Inr (((t, c), log), st)"
    by (auto simp: parseTrace_def Walk_def split: option.splits sum.splits)
  have "if st = WalkStop then parseHalted doc source ((t, c), log)
        else parseRunning doc source ((t, c), log)"
    by (rule walk_invariant(1) [where J = "parseRunning doc source" and K = "parseHalted doc source",
          OF parse_step_invariant parseRunning_init w])
  then have h: "parseHalted doc source ((t, c), log)"
    using parseRunning_imp_Halted by (auto split: if_splits)
  then have last: "\<forall>i<length log. evStatus (log ! i) = WalkStop \<longrightarrow> Suc i = length log"
    and P2: "length (filter (paragraphEntry doc) log) \<le> 2"
    and I2: "length (filter (inspects doc) log) \<le> 2"
    and calls: "\<forall>ev\<in>set log. parseWalker doc source (evNode ev) (evEntering ev) (evBefore ev)
                        = Inr (evAfter ev, evStatus ev)"
    and insp: "\<forall>i<length log. inspects doc (log ! i)
            \<longrightarrow> length (filter (paragraphEntry doc) (take (Suc i) log)) \<le> 1"
    by (simp_all add: parseHalted_def eventsOK_def)
  have stop: "evStatus ev = WalkStop \<longleftrightarrow>
            evEntering ev \<and> 1 < snd (evBefore ev) + (if paragraphEntry doc ev then 1 else 0)"
    and incr: "paragraphEntry doc ev \<longrightarrow> snd (evAfter ev) = snd (evBefore ev) + 1"
    and quiet: "1 < snd (evBefore ev) \<longrightarrow> \<not> inspects doc ev \<and> fst (evAfter ev) = fst (evBefore ev)"
    if "ev \<in> set log" for ev
  proof -
    from calls that have "parseWalker doc source (evNode ev) (evEntering ev)
        (fst (evBefore ev), snd (evBefore ev)) = Inr ((fst (evAfter ev), snd (evAfter ev)), evStatus ev)"
      by simp
    note s = parseWalker_step [OF this]
    from s(1) show "evStatus ev = WalkStop \<longleftrightarrow>
            evEntering ev \<and> 1 < snd (evBefore ev) + (if paragraphEntry doc ev then 1 else 0)"
      by (auto simp: paragraphEntry_def)
    from s(2) show "paragraphEntry doc ev \<longrightarrow> snd (evAfter ev) = snd (evBefore ev) + 1"
      by (auto simp: paragraphEntry_def)
    from s(4) show "1 < snd (evBefore ev) \<longrightarrow> \<not> inspects doc ev \<and> fst (evAfter ev) = fst (evBefore ev)"
      by (auto simp: inspects_def)
  qed
  from tr calls incr stop last quiet insp P2 I2 show ?thesis by blast
qed

theorem ParseBlockQuoteType_paragraph_bound_witness:
  "ParseBlockQuoteType
     (Node (OtherNode KindDocument)
        [Node (Admonition None)
           [Node (OtherNode KindParagraph) [Node (Text \<lparr>Start = 0, Stop = 4, Padding = 0\<rparr>) []],
            Node (OtherNode KindParagraph) [Node (Text \<lparr>Start = 6, Stop = 10, Padding = 0\<rparr>) []]]])
     [0] (''note'' @ [CHR 0x0A, CHR 0x0A] @ ''more'') = Inr Note
   \<and> (\<exists>c log. parseTrace
     (Node (OtherNode KindDocument)
        [Node (Admonition None)
           [Node (OtherNode KindParagraph) [Node (Text \<lparr>Start = 0, Stop = 4, Padding = 0\<rparr>) []],
            Node (OtherNode KindParagraph) [Node (Text \<lparr>Start = 6, Stop = 10, Padding = 0\<rparr>) []]]])
     [0] (''note'' @ [CHR 0x0A, CHR 0x0A] @ ''more'') = Inr ((Note, c), log)
        \<and> (\<forall>i<length log. evStatus (log ! i) = WalkStop \<longrightarrow> Suc i = length log)
        \<and> length (filter (paragraphEntry
     (Node (OtherNode KindDocument)
        [Node (Admonition None)
           [Node (OtherNode KindParagraph) [Node (Text \<lparr>Start = 0, Stop = 4, Padding = 0\<rparr>) []],
            Node (OtherNode KindParagraph) [Node (Text \<lparr>Start = 6, Stop = 10, Padding = 0\<rparr>) []]]])) log) \<le> 2
        \<and> length (filter (inspects
     (Node (OtherNode KindDocument)
        [Node (Admonition None)
           [Node (OtherNode KindParagraph) [Node (Text \<lparr>Start = 0, Stop = 4, Padding = 0\<rparr>) []],
            Node (OtherNode KindParagraph) [Node (Text \<lparr>Start = 6, Stop = 10, Padding = 0\<rparr>) []]]])) log) \<le> 2)"
proof -
  let ?doc = "Node (OtherNode KindDocument)
        [Node (Admonition None)
           [Node (OtherNode KindParagraph) [Node (Text \<lparr>Start = 0, Stop = 4, Padding = 0\<rparr>) []],
            Node (OtherNode KindParagraph) [Node (Text \<lparr>Start = 6, Stop = 10, Padding = 0\<rparr>) []]]]"
  let ?src = "''note'' @ [CHR 0x0A, CHR 0x0A] @ ''more''"
  have p: "ParseBlockQuoteType ?doc [0] ?src = Inr Note" by code_simp
  from ParseBlockQuoteType_paragraph_bound [OF p] p show ?thesis by blast
qed

section \<open>Where a later node replaces the type\<close>

text \<open>
  Claim C3 says that the first classification that is not \<open>None\<close> is the result of
  \<open>ParseBlockQuoteType\<close>. The code assigns \<open>t\<close> at every node it inspects, and outside
  a paragraph it inspects two. Here the block quote holds two raw HTML blocks: the only
  line of the first is classified \<open>Note\<close>, the second block is inspected as well, its
  line is classified \<open>None\<close>, and the result is \<open>None\<close>.
\<close>

theorem ParseBlockQuoteType_second_block_overwrites:
  "classifyLines [\<lparr>Start = 0, Stop = 16, Padding = 0\<rparr>]
      (''<div>note</div>'' @ [CHR 0x0A, CHR 0x0A] @ ''<div>plain</div>'' @ [CHR 0x0A]) NoneBQ = Inr Note
   \<and> ParseBlockQuoteType
      (Node (OtherNode KindDocument)
         [Node (Admonition None)
            [Node (HTMLBlock [\<lparr>Start = 0, Stop = 16, Padding = 0\<rparr>]) [],
             Node (HTMLBlock [\<lparr>Start = 17, Stop = 34, Padding = 0\<rparr>]) []]])
      [0] (''<div>note</div>'' @ [CHR 0x0A, CHR 0x0A] @ ''<div>plain</div>'' @ [CHR 0x0A]) = Inr NoneBQ"
  by code_simp

text \<open>
  Claim C7 says that the Alert classification of the middle fragment is the result. Here
  the three fragments \<open>[\<close>, \<open>!WARNING\<close>, \<open>]\<close> are the text of a tight list item, so no
  paragraph is entered before them: the first fragment yields the Alert classification
  \<open>Note\<close> of the middle one, then the middle fragment is inspected itself and its Legacy
  classification \<open>Warn\<close> replaces it.
\<close>

theorem ParseBlockQuoteType_bracket_alert_overwritten:
  "SegmentValue \<lparr>Start = 2, Stop = 3, Padding = 0\<rparr> (''- [!WARNING]'' @ [CHR 0x0A]) = Inr ''[''
   \<and> SegmentValue \<lparr>Start = 3, Stop = 11, Padding = 0\<rparr> (''- [!WARNING]'' @ [CHR 0x0A]) = Inr ''!WARNING''
   \<and> SegmentValue \<lparr>Start = 11, Stop = 12, Padding = 0\<rparr> (''- [!WARNING]'' @ [CHR 0x0A]) = Inr '']''
   \<and> ClassifyingBlockQuote LegacyBlockQuoteClassifier ''['' = Inr NoneBQ
   \<and> ClassifyingBlockQuote GHAlertsBlockQuoteClassifier ''!WARNING'' = Inr Note
   \<and> ParseBlockQuoteType
      (Node (OtherNode KindDocument)
         [Node (Admonition None)
            [Node (OtherNode (KindOther ''List''))
               [Node (OtherNode (KindOther ''ListItem''))
                  [Node (OtherNode (KindOther ''TextBlock''))
                     [Node (Text \<lparr>Start = 2, Stop = 3, Padding = 0\<rparr>) [],
                      Node (Text \<lparr>Start = 3, Stop = 11, Padding = 0\<rparr>) [],
                      Node (Text \<lparr>Start = 11, Stop = 12, Padding = 0\<rparr>) []]]]]])
      [0] (''- [!WARNING]'' @ [CHR 0x0A]) = Inr Warn"
  by code_simp

end
